theory Spec2Isabelle
  imports Complex_Main "HOL-Library.AList" "HOL-Library.Char_ord" "HOL-Library.List_Lexorder"
    "HOL-Library.Log_Nat" "HOL-Library.Word"
begin

unbundle bit_operations_syntax

section \<open>JavaScript values\<close>

text \<open>
  The cache passes JSON-like JavaScript values around. Numbers are the integers
  (timestamps, lengths); strings are lists of code units below 256; an object is the list
  of its own properties in property order (keys distinct). \<open>JUndefined\<close> is
  \<^verbatim>\<open>undefined\<close>.
\<close>

datatype jsval =
    JUndefined
  | JNull
  | JBool bool
  | JNum int
  | JStr string
  | JArr "jsval list"
  | JObj "(string \<times> jsval) list"

text \<open>What a throwing operation throws: reading a property of \<^verbatim>\<open>null\<close> or
  \<^verbatim>\<open>undefined\<close>, or calling a string method on a value that has none, is a
  TypeError; a corrupt gzip stream and a JSON syntax error come from the runtime.\<close>

datatype error = TypeError | DecodeError | SyntaxError

text \<open>\<^verbatim>\<open>!x\<close> is \<open>\<not> truthy x\<close>.\<close>

fun truthy :: "jsval \<Rightarrow> bool" where
  "truthy JUndefined = False"
| "truthy JNull = False"
| "truthy (JBool b) = b"
| "truthy (JNum n) = (n \<noteq> 0)"
| "truthy (JStr s) = (s \<noteq> [])"
| "truthy (JArr xs) = True"
| "truthy (JObj kvs) = True"

text \<open>\<^verbatim>\<open>x.p\<close> for the property names the cache reads (\<^verbatim>\<open>compressed\<close>,
  \<^verbatim>\<open>data\<close>, \<^verbatim>\<open>query\<close>, \<^verbatim>\<open>response\<close>, \<^verbatim>\<open>score\<close>): none of them
  is inherited, so a primitive or an array has them undefined.\<close>

fun get_prop :: "jsval \<Rightarrow> string \<Rightarrow> error + jsval" where
  "get_prop JUndefined p = Inl TypeError"
| "get_prop JNull p = Inl TypeError"
| "get_prop (JObj kvs) p = Inr (case map_of kvs p of None \<Rightarrow> JUndefined | Some v \<Rightarrow> v)"
| "get_prop v p = Inr JUndefined"

section \<open>Numbers in double precision\<close>

text \<open>
  A score is an IEEE 754 double, and so is a threshold. A finite double is modelled by the
  rational number it denotes. \<open>round_double x\<close> is the double nearest to \<open>x\<close>, ties going
  to the even significand: the rounding of every arithmetic operation and of a decimal
  literal. \<open>binary_exponent a\<close> is the exponent \<open>e\<close> with \<open>2\<^sup>e \<le> a < 2\<^sup>e\<^sup>+\<^sup>1\<close>, for
  \<open>a > 0\<close>; below \<open>2\<^sup>-\<^sup>1\<^sup>0\<^sup>2\<^sup>2\<close> the spacing is that of the subnormal numbers. Infinities and
  NaN have no counterpart: the rounding is the runtime's for magnitudes below
  \<open>2\<^sup>1\<^sup>0\<^sup>2\<^sup>4\<close>, and a division by 0 is outside the model (\<^verbatim>\<open>_calculate\<close> never divides by
  0, see \<open>calculate\<close> below).
\<close>

definition binary_exponent :: "rat \<Rightarrow> int" where
  "binary_exponent a =
     (if 1 \<le> a then bitlen \<lfloor>a\<rfloor> - 1 else - bitlen (\<lceil>1 / a\<rceil> - 1))"

definition round_double :: "rat \<Rightarrow> rat" where
  "round_double x =
     (if x = 0 then 0
      else
        let a = \<bar>x\<bar>;
            e = max (binary_exponent a) (- 1022);
            u = 2 powi (e - 52);
            n = \<lfloor>a / u\<rfloor>;
            r = a / u - of_int n;
            m = (if r < 1 / 2 then n
                 else if 1 / 2 < r then n + 1
                 else if even n then n else n + 1)
        in sgn x * (of_int m * u))"

text \<open>The operators \<^verbatim>\<open>/\<close> and \<^verbatim>\<open>-\<close> on doubles.\<close>

definition js_div :: "rat \<Rightarrow> rat \<Rightarrow> rat" where
  "js_div x y = round_double (x / y)"

definition js_sub :: "rat \<Rightarrow> rat \<Rightarrow> rat" where
  "js_sub x y = round_double (x - y)"

section \<open>Store (cache-store.js)\<close>

text \<open>
  \<^verbatim>\<open>_store\<close> is a \<^verbatim>\<open>Map\<close>: an association list in insertion order. \<^verbatim>\<open>Map.set\<close>
  replaces the value of a present key in place and appends an absent one
  (\<open>AList.update\<close>), \<^verbatim>\<open>Map.delete\<close> is \<open>AList.delete\<close>, \<^verbatim>\<open>Map.get\<close> is
  \<open>map_of\<close>. Every operation reads \<^verbatim>\<open>Date.now()\<close> once; the reading is the
  argument \<open>now\<close>.
\<close>

record entry =
  "value" :: jsval
  createdAt :: int
  expiresAt :: int

type_synonym store = "(string \<times> entry) list"

definition store_set :: "int \<Rightarrow> string \<Rightarrow> jsval \<Rightarrow> int \<Rightarrow> store \<Rightarrow> bool \<times> store" where
  "store_set now key v ttl s =
     (let expires = now + ttl
      in (True, AList.update key \<lparr>value = v, createdAt = now, expiresAt = expires\<rparr> s))"

definition store_get :: "int \<Rightarrow> string \<Rightarrow> store \<Rightarrow> entry option \<times> store" where
  "store_get now key s =
     (case map_of s key of
        None \<Rightarrow> (None, s)
      | Some item \<Rightarrow>
          if expiresAt item < now then (None, AList.delete key s)
          else (Some item, s))"

definition store_remove :: "string \<Rightarrow> store \<Rightarrow> bool \<times> store" where
  "store_remove key s = (key \<in> fst ` set s, AList.delete key s)"

definition store_clear :: "store \<Rightarrow> bool \<times> store" where
  "store_clear s = (True, [])"

text \<open>The sweep of \<^verbatim>\<open>cleanup\<close>: the loop over \<^verbatim>\<open>_store.entries()\<close>, deleting
  the entry it stands on; \<open>removed\<close> is the counter.\<close>

fun cleanup_loop :: "int \<Rightarrow> (string \<times> entry) list \<Rightarrow> store \<Rightarrow> nat \<Rightarrow> nat \<times> store" where
  "cleanup_loop now [] s removed = (removed, s)"
| "cleanup_loop now ((key, item) # rest) s removed =
     (if expiresAt item < now
      then cleanup_loop now rest (AList.delete key s) (Suc removed)
      else cleanup_loop now rest s removed)"

definition store_cleanup :: "int \<Rightarrow> store \<Rightarrow> nat \<times> store" where
  "store_cleanup now s = cleanup_loop now s s 0"

definition store_getKeys :: "store \<Rightarrow> string list" where
  "store_getKeys s = map fst s"

text \<open>A \<^verbatim>\<open>Map\<close> holds a key once.\<close>

definition store_wf :: "store \<Rightarrow> bool" where
  "store_wf s = distinct (map fst s)"

text \<open>An entry past its expiry at the reading \<open>now\<close>, as \<^verbatim>\<open>get\<close> and
  \<^verbatim>\<open>cleanup\<close> test it.\<close>

definition expired :: "int \<Rightarrow> string \<times> entry \<Rightarrow> bool" where
  "expired now p = (expiresAt (snd p) < now)"

section \<open>Similarity matcher (cache-similarity.js)\<close>

record sim_config =
  sim_enabled :: bool
  threshold :: rat
  ignoreCase :: bool
  normalizeText :: bool
  useCache :: bool
  cacheSize :: int

definition default_sim_config :: sim_config where
  "default_sim_config =
     \<lparr>sim_enabled = True, threshold = round_double (8 / 10), ignoreCase = True,
      normalizeText = True,
      useCache = True, cacheSize = 500\<rparr>"

subsection \<open>Normalisation\<close>

text \<open>Character classes of the regular expressions, on code units below 256:
  \<^verbatim>\<open>\s\<close> is tab, line feed, vertical tab, form feed, carriage return, space and the
  no-break space; \<^verbatim>\<open>\w\<close> is \<^verbatim>\<open>[A-Za-z0-9_]\<close>.\<close>

definition is_space :: "char \<Rightarrow> bool" where
  "is_space c = (let n = (of_char c :: nat) in (9 \<le> n \<and> n \<le> 13) \<or> n = 32 \<or> n = 160)"

definition is_word :: "char \<Rightarrow> bool" where
  "is_word c =
     (let n = (of_char c :: nat)
      in (65 \<le> n \<and> n \<le> 90) \<or> (97 \<le> n \<and> n \<le> 122) \<or> (48 \<le> n \<and> n \<le> 57) \<or> n = 95)"

text \<open>\<^verbatim>\<open>toLowerCase\<close> on one code unit: the letters A to Z, and the Latin-1 capitals
  (192 to 222 but the multiplication sign 215).\<close>

definition to_lower :: "char \<Rightarrow> char" where
  "to_lower c =
     (let n = (of_char c :: nat)
      in if (65 \<le> n \<and> n \<le> 90) \<or> (192 \<le> n \<and> n \<le> 222 \<and> n \<noteq> 215) then char_of (n + 32) else c)"

definition toLowerCase :: "string \<Rightarrow> string" where
  "toLowerCase s = map to_lower s"

text \<open>\<^verbatim>\<open>replace(/\s+/g, ' ')\<close>: every maximal run of white space becomes one space.\<close>

function collapse_ws :: "string \<Rightarrow> string" where
  "collapse_ws [] = []"
| "collapse_ws (c # cs) =
     (if is_space c then CHR '' '' # collapse_ws (dropWhile is_space cs)
      else c # collapse_ws cs)"
  by pat_completeness auto
termination
  by (relation "measure length") (auto simp: less_Suc_eq_le length_dropWhile_le)

definition trim :: "string \<Rightarrow> string" where
  "trim s = rev (dropWhile is_space (rev (dropWhile is_space s)))"

definition normalize_str :: "sim_config \<Rightarrow> string \<Rightarrow> string" where
  "normalize_str cfg text =
     (let out = (if ignoreCase cfg then toLowerCase text else text)
      in if normalizeText cfg
         then trim (collapse_ws (filter (\<lambda>c. is_word c \<or> is_space c) out))
         else out)"

text \<open>\<^verbatim>\<open>_normalize(text)\<close>: a falsy argument (\<^verbatim>\<open>undefined\<close>, \<^verbatim>\<open>null\<close>, the empty
  string) gives the empty string. A truthy value that is not a string has no
  \<^verbatim>\<open>toLowerCase\<close> and no \<^verbatim>\<open>replace\<close>: a TypeError (with both options off the
  source hands such a value on unchanged; the model covers strings there).\<close>

definition normalize :: "sim_config \<Rightarrow> jsval \<Rightarrow> error + string" where
  "normalize cfg text =
     (if \<not> truthy text then Inr []
      else case text of JStr s \<Rightarrow> Inr (normalize_str cfg s) | _ \<Rightarrow> Inl TypeError)"

subsection \<open>Levenshtein similarity\<close>

text \<open>
  \<^verbatim>\<open>_levenshteinSim\<close> fills the matrix row by row. \<open>fill_row\<close> is the inner loop over
  \<open>j\<close> for one \<open>i\<close>: it walks \<open>b\<close> and the previous row together, \<open>diag\<close> being
  \<^verbatim>\<open>matrix[i-1][j-1]\<close>, \<open>up\<close> being \<^verbatim>\<open>matrix[i-1][j]\<close> and \<open>left\<close> being
  \<^verbatim>\<open>matrix[i][j-1]\<close>. \<open>lev_rows\<close> is the outer loop over \<open>i\<close>; row \<open>i\<close> starts with
  \<^verbatim>\<open>matrix[i][0] = i\<close>, and row 0 is \<^verbatim>\<open>matrix[0][j] = j\<close>. The entries are small
  integers, exact as doubles; the last line, \<^verbatim>\<open>1 - distance / Math.max(a.length, b.length)\<close>,
  is a division and a subtraction of doubles, each rounded.
\<close>

fun fill_row :: "char \<Rightarrow> string \<Rightarrow> nat list \<Rightarrow> nat \<Rightarrow> nat list" where
  "fill_row ai (bj # bs) (diag # up # prev) left =
     (let cost = (if ai = bj then 0 else 1);
          v = min (min (up + 1) (left + 1)) (diag + cost)
      in v # fill_row ai bs (up # prev) v)"
| "fill_row ai bs prev left = []"

fun lev_rows :: "string \<Rightarrow> string \<Rightarrow> nat \<Rightarrow> nat list \<Rightarrow> nat list list" where
  "lev_rows [] b i prev = []"
| "lev_rows (ai # as) b i prev =
     (let row = i # fill_row ai b prev i in row # lev_rows as b (Suc i) row)"

definition lev_matrix :: "string \<Rightarrow> string \<Rightarrow> nat list list" where
  "lev_matrix a b = (let row0 = [0..<Suc (length b)] in row0 # lev_rows a b 1 row0)"

definition levenshteinSim :: "string \<Rightarrow> string \<Rightarrow> rat" where
  "levenshteinSim a b =
     (let matrix = lev_matrix a b;
          distance = matrix ! length a ! length b
      in js_sub 1 (js_div (of_nat distance) (of_nat (max (length a) (length b)))))"

text \<open>The Levenshtein distance between the first \<open>i\<close> characters of \<open>a\<close> and the first
  \<open>j\<close> of \<open>b\<close>, by its recurrence; \<open>levenshtein a b\<close> is the distance of the two
  strings.\<close>

fun lev_d :: "string \<Rightarrow> string \<Rightarrow> nat \<Rightarrow> nat \<Rightarrow> nat" where
  "lev_d a b 0 j = j"
| "lev_d a b (Suc i) 0 = Suc i"
| "lev_d a b (Suc i) (Suc j) =
     min (min (lev_d a b i (Suc j) + 1) (lev_d a b (Suc i) j + 1))
         (lev_d a b i j + (if a ! i = b ! j then 0 else 1))"

definition levenshtein :: "string \<Rightarrow> string \<Rightarrow> nat" where
  "levenshtein a b = lev_d a b (length a) (length b)"

subsection \<open>The memo and the scan\<close>

text \<open>\<^verbatim>\<open>_cache\<close> is a \<^verbatim>\<open>Map\<close> from the pair key to the score, in insertion order.
  \<^verbatim>\<open>[a, b].sort().join('||')\<close> puts the smaller string (by code units) first.\<close>

type_synonym memo = "(string \<times> rat) list"

definition cacheKey :: "string \<Rightarrow> string \<Rightarrow> string" where
  "cacheKey a b = (if b < a then b @ ''||'' @ a else a @ ''||'' @ b)"

text \<open>\<^verbatim>\<open>this._cache.delete(this._cache.keys().next().value)\<close>: the first key in insertion
  order goes; on an empty map nothing does.\<close>

definition evict_first :: "memo \<Rightarrow> memo" where
  "evict_first c = (case c of [] \<Rightarrow> [] | (k, v) # rest \<Rightarrow> AList.delete k c)"

definition calculate :: "sim_config \<Rightarrow> memo \<Rightarrow> string \<Rightarrow> string \<Rightarrow> rat \<times> memo" where
  "calculate cfg c a b =
     (if a = b then (1, c)
      else if a = [] \<or> b = [] then (0, c)
      else
        let k = cacheKey a b in
        if useCache cfg \<and> k \<in> fst ` set c then (the (map_of c k), c)
        else
          let score = levenshteinSim a b in
          if useCache cfg
          then (score,
                AList.update k score (if int (length c) > cacheSize cfg then evict_first c else c))
          else (score, c))"

text \<open>\<^verbatim>\<open>Object.entries(pool)\<close>: the keys that are array indices (canonical decimal
  numerals below \<open>2\<^sup>3\<^sup>2 - 1\<close>) come first, in ascending numeric order; the other keys
  follow in insertion order. A pool is given in insertion order.\<close>

definition is_digit :: "char \<Rightarrow> bool" where
  "is_digit c = (48 \<le> (of_char c :: nat) \<and> (of_char c :: nat) \<le> 57)"

definition dec_value :: "string \<Rightarrow> int" where
  "dec_value k = foldl (\<lambda>n c. 10 * n + ((of_char c :: int) - 48)) 0 k"

definition is_array_index :: "string \<Rightarrow> bool" where
  "is_array_index k =
     (k \<noteq> [] \<and> list_all is_digit k \<and> (hd k \<noteq> CHR ''0'' \<or> length k = 1)
      \<and> dec_value k < 4294967295)"

definition Object_entries :: "(string \<times> 'a) list \<Rightarrow> (string \<times> 'a) list" where
  "Object_entries kvs =
     sort_key (\<lambda>p. dec_value (fst p)) (filter (\<lambda>p. is_array_index (fst p)) kvs)
     @ filter (\<lambda>p. \<not> is_array_index (fst p)) kvs"

record match =
  m_key :: string
  m_query :: jsval
  m_score :: rat

text \<open>The loop of \<^verbatim>\<open>findBestMatch\<close> over the entries of the pool: \<open>best\<close> is replaced
  when the score is above the threshold and there is no best yet or the score is above
  the best's. A TypeError leaves the memo as the scan left it.\<close>

fun match_loop ::
  "sim_config \<Rightarrow> rat \<Rightarrow> string \<Rightarrow> (string \<times> jsval) list \<Rightarrow> memo \<Rightarrow> match option
     \<Rightarrow> (error + match option) \<times> memo" where
  "match_loop cfg thr normalized [] c best = (Inr best, c)"
| "match_loop cfg thr normalized ((k, v) # rest) c best =
     (case normalize cfg v of
        Inl e \<Rightarrow> (Inl e, c)
      | Inr candidate \<Rightarrow>
          (case calculate cfg c normalized candidate of
             (score, c') \<Rightarrow>
               if score > thr \<and> (best = None \<or> score > m_score (the best))
               then match_loop cfg thr normalized rest c'
                      (Some \<lparr>m_key = k, m_query = v, m_score = score\<rparr>)
               else match_loop cfg thr normalized rest c' best))"

definition findBestMatch ::
  "sim_config \<Rightarrow> memo \<Rightarrow> jsval \<Rightarrow> (string \<times> jsval) list \<Rightarrow> rat
     \<Rightarrow> (error + match option) \<times> memo" where
  "findBestMatch cfg c query pool thr =
     (if \<not> sim_enabled cfg \<or> \<not> truthy query then (Inr None, c)
      else case normalize cfg query of
             Inl e \<Rightarrow> (Inl e, c)
           | Inr normalized \<Rightarrow> match_loop cfg thr normalized (Object_entries pool) c None)"

subsection \<open>Notions the statements about the matcher use\<close>

text \<open>The score of two normalised strings without the memo: the two early returns of
  \<^verbatim>\<open>_calculate\<close>, then \<^verbatim>\<open>_levenshteinSim\<close>.\<close>

definition plain_score :: "string \<Rightarrow> string \<Rightarrow> rat" where
  "plain_score a b =
     (if a = b then 1 else if a = [] \<or> b = [] then 0 else levenshteinSim a b)"

text \<open>A string without the bar of the pair key's separator; text normalisation
  removes every bar.\<close>

definition bar_free :: "string \<Rightarrow> bool" where
  "bar_free s = (CHR ''|'' \<notin> set s)"

text \<open>A memo as \<^verbatim>\<open>_calculate\<close> fills it from bar-free strings: every entry holds the
  similarity of a pair under that pair's key.\<close>

definition memo_ok :: "memo \<Rightarrow> bool" where
  "memo_ok c =
     (\<forall>p \<in> set c. \<exists>a b. bar_free a \<and> bar_free b \<and> fst p = cacheKey a b
        \<and> snd p = levenshteinSim a b)"

text \<open>The scores \<^verbatim>\<open>_calculate\<close> hands to the loop of \<^verbatim>\<open>findBestMatch\<close>, candidate by
  candidate, the memo threaded as the loop threads it.\<close>

fun scan_scores :: "sim_config \<Rightarrow> string \<Rightarrow> (string \<times> jsval) list \<Rightarrow> memo \<Rightarrow> rat list" where
  "scan_scores cfg normalized [] c = []"
| "scan_scores cfg normalized ((k, v) # rest) c =
     (case normalize cfg v of
        Inl e \<Rightarrow> []
      | Inr candidate \<Rightarrow>
          (case calculate cfg c normalized candidate of
             (score, c') \<Rightarrow> score # scan_scores cfg normalized rest c'))"

text \<open>The choice of the loop on a list of scored candidates.\<close>

fun pick :: "rat \<Rightarrow> ((string \<times> jsval) \<times> rat) list \<Rightarrow> match option \<Rightarrow> match option" where
  "pick thr [] best = best"
| "pick thr (((k, v), score) # rest) best =
     (if score > thr \<and> (best = None \<or> score > m_score (the best))
      then pick thr rest (Some \<lparr>m_key = k, m_query = v, m_score = score\<rparr>)
      else pick thr rest best)"

section \<open>JSON text, string conversion and the MD5 digest (runtime functions)\<close>

subsection \<open>\<^verbatim>\<open>JSON.stringify\<close>\<close>

text \<open>Decimal numerals, string quoting with the escapes of \<^verbatim>\<open>JSON.stringify\<close>, and the
  serialisation itself. \<open>None\<close> is the result \<^verbatim>\<open>undefined\<close>; an \<^verbatim>\<open>undefined\<close>
  property is left out of an object and is \<^verbatim>\<open>null\<close> in an array.\<close>

function show_nat :: "nat \<Rightarrow> string" where
  "show_nat n =
     (if n < 10 then [char_of (48 + n)]
      else show_nat (n div 10) @ [char_of (48 + n mod 10)])"
  by pat_completeness auto
termination
  by (relation "measure id") auto

definition show_int :: "int \<Rightarrow> string" where
  "show_int i = (if i < 0 then CHR ''-'' # show_nat (nat (- i)) else show_nat (nat i))"

definition hex_digit :: "nat \<Rightarrow> char" where
  "hex_digit n = (if n < 10 then char_of (48 + n) else char_of (87 + n))"

definition escape_char :: "char \<Rightarrow> string" where
  "escape_char c =
     (let n = (of_char c :: nat)
      in if n = 34 then [CHR 0x5C, CHR 0x22]
         else if n = 92 then [CHR 0x5C, CHR 0x5C]
         else if n = 8 then [CHR 0x5C, CHR ''b'']
         else if n = 9 then [CHR 0x5C, CHR ''t'']
         else if n = 10 then [CHR 0x5C, CHR ''n'']
         else if n = 12 then [CHR 0x5C, CHR ''f'']
         else if n = 13 then [CHR 0x5C, CHR ''r'']
         else if n < 32 then [CHR 0x5C, CHR ''u'', CHR ''0'', CHR ''0'', hex_digit (n div 16), hex_digit (n mod 16)]
         else [c])"

definition quote :: "string \<Rightarrow> string" where
  "quote s = CHR 0x22 # concat (map escape_char s) @ [CHR 0x22]"

fun join_comma :: "string list \<Rightarrow> string" where
  "join_comma [] = []"
| "join_comma [x] = x"
| "join_comma (x # y # ys) = x @ CHR '','' # join_comma (y # ys)"

fun stringify :: "jsval \<Rightarrow> string option" where
  "stringify JUndefined = None"
| "stringify JNull = Some ''null''"
| "stringify (JBool b) = Some (if b then ''true'' else ''false'')"
| "stringify (JNum n) = Some (show_int n)"
| "stringify (JStr s) = Some (quote s)"
| "stringify (JArr xs) =
     Some (CHR ''['' # join_comma (map (\<lambda>x. case stringify x of None \<Rightarrow> ''null'' | Some t \<Rightarrow> t) xs)
           @ '']'')"
| "stringify (JObj kvs) =
     Some (CHR ''{'' # join_comma (concat (map (\<lambda>kv. case stringify (snd kv) of
                                             None \<Rightarrow> []
                                           | Some t \<Rightarrow> [quote (fst kv) @ CHR '':'' # t]) kvs))
           @ ''}'')"

subsection \<open>String conversion in a template literal\<close>

fun js_toString :: "jsval \<Rightarrow> string" where
  "js_toString JUndefined = ''undefined''"
| "js_toString JNull = ''null''"
| "js_toString (JBool b) = (if b then ''true'' else ''false'')"
| "js_toString (JNum n) = show_int n"
| "js_toString (JStr s) = s"
| "js_toString (JArr xs) =
     join_comma (map (\<lambda>x. if x = JUndefined \<or> x = JNull then [] else js_toString x) xs)"
| "js_toString (JObj kvs) = ''[object Object]''"

subsection \<open>MD5 (\<^verbatim>\<open>crypto.createHash('md5')\<close>), after RFC 1321\<close>

type_synonym byte = "8 word"
type_synonym md5_state = "32 word \<times> 32 word \<times> 32 word \<times> 32 word"

text \<open>\<^verbatim>\<open>update(base)\<close> hashes the UTF-8 bytes of the string.\<close>

definition utf8_encode :: "string \<Rightarrow> byte list" where
  "utf8_encode s =
     concat (map (\<lambda>c. let n = (of_char c :: nat)
                       in if n < 128 then [of_nat n]
                          else [of_nat (192 + n div 64), of_nat (128 + n mod 64)]) s)"

definition md5_shifts :: "nat list" where
  "md5_shifts = [7, 12, 17, 22, 7, 12, 17, 22, 7, 12, 17, 22, 7, 12, 17, 22, 5, 9, 14, 20, 5, 9, 14, 20, 5, 9, 14, 20, 5, 9, 14, 20, 4, 11, 16, 23, 4, 11, 16, 23, 4, 11, 16, 23, 4, 11, 16, 23, 6, 10, 15, 21, 6, 10, 15, 21, 6, 10, 15, 21, 6, 10, 15, 21]"

definition md5_K :: "32 word list" where
  "md5_K =
     [0xd76aa478, 0xe8c7b756, 0x242070db, 0xc1bdceee,
      0xf57c0faf, 0x4787c62a, 0xa8304613, 0xfd469501,
      0x698098d8, 0x8b44f7af, 0xffff5bb1, 0x895cd7be,
      0x6b901122, 0xfd987193, 0xa679438e, 0x49b40821,
      0xf61e2562, 0xc040b340, 0x265e5a51, 0xe9b6c7aa,
      0xd62f105d, 0x02441453, 0xd8a1e681, 0xe7d3fbc8,
      0x21e1cde6, 0xc33707d6, 0xf4d50d87, 0x455a14ed,
      0xa9e3e905, 0xfcefa3f8, 0x676f02d9, 0x8d2a4c8a,
      0xfffa3942, 0x8771f681, 0x6d9d6122, 0xfde5380c,
      0xa4beea44, 0x4bdecfa9, 0xf6bb4b60, 0xbebfbc70,
      0x289b7ec6, 0xeaa127fa, 0xd4ef3085, 0x04881d05,
      0xd9d4d039, 0xe6db99e5, 0x1fa27cf8, 0xc4ac5665,
      0xf4292244, 0x432aff97, 0xab9423a7, 0xfc93a039,
      0x655b59c3, 0x8f0ccc92, 0xffeff47d, 0x85845dd1,
      0x6fa87e4f, 0xfe2ce6e0, 0xa3014314, 0x4e0811a1,
      0xf7537e82, 0xbd3af235, 0x2ad7d2bb, 0xeb86d391]"

definition le_bytes :: "nat \<Rightarrow> nat \<Rightarrow> byte list" where
  "le_bytes k n = map (\<lambda>i. of_nat (n div 256 ^ i mod 256)) [0..<k]"

definition md5_pad :: "byte list \<Rightarrow> byte list" where
  "md5_pad msg =
     msg @ [0x80] @ replicate ((119 - length msg mod 64) mod 64) 0 @ le_bytes 8 (8 * length msg)"

definition le_word :: "byte list \<Rightarrow> 32 word" where
  "le_word bs = foldr (\<lambda>b w. ucast b + push_bit 8 w) bs 0"

function chunks :: "nat \<Rightarrow> 'a list \<Rightarrow> 'a list list" where
  "chunks n xs = (if n = 0 \<or> xs = [] then [] else take n xs # chunks n (drop n xs))"
  by pat_completeness auto
termination
  by (relation "measure (\<lambda>(n, xs). length xs)") auto

definition md5_step :: "32 word list \<Rightarrow> md5_state \<Rightarrow> nat \<Rightarrow> md5_state" where
  "md5_step M st i =
     (case st of (A, B, C, D) \<Rightarrow>
        let F = (if i < 16 then (B AND C) OR (NOT B AND D)
                 else if i < 32 then (D AND B) OR (NOT D AND C)
                 else if i < 48 then B XOR C XOR D
                 else C XOR (B OR NOT D));
            g = (if i < 16 then i
                 else if i < 32 then (5 * i + 1) mod 16
                 else if i < 48 then (3 * i + 5) mod 16
                 else (7 * i) mod 16);
            F' = F + A + md5_K ! i + M ! g
        in (D, B + word_rotl (md5_shifts ! i) F', B, C))"

definition md5_block :: "md5_state \<Rightarrow> byte list \<Rightarrow> md5_state" where
  "md5_block st block =
     (case st of (a0, b0, c0, d0) \<Rightarrow>
        case foldl (md5_step (map le_word (chunks 4 block))) st [0..<64] of
          (A, B, C, D) \<Rightarrow> (a0 + A, b0 + B, c0 + C, d0 + D))"

definition md5 :: "byte list \<Rightarrow> md5_state" where
  "md5 msg = foldl md5_block (0x67452301, 0xefcdab89, 0x98badcfe, 0x10325476) (chunks 64 (md5_pad msg))"

definition hex_digits :: "char set" where
  "hex_digits = set ''0123456789abcdef''"

definition hex_byte :: "nat \<Rightarrow> string" where
  "hex_byte n = [hex_digit (n div 16 mod 16), hex_digit (n mod 16)]"

definition hex_word_le :: "32 word \<Rightarrow> string" where
  "hex_word_le w = concat (map (\<lambda>i. hex_byte (unat w div 256 ^ i mod 256)) [0..<4])"

definition md5_hex :: "string \<Rightarrow> string" where
  "md5_hex s =
     (case md5 (utf8_encode s) of (A, B, C, D) \<Rightarrow>
        hex_word_le A @ hex_word_le B @ hex_word_le C @ hex_word_le D)"

section \<open>Compression codec (cache-compression.js)\<close>

text \<open>
  \<^verbatim>\<open>zlib.gzip\<close>, \<^verbatim>\<open>zlib.gunzip\<close>, the base64 conversions of \<^verbatim>\<open>Buffer\<close> and
  \<^verbatim>\<open>JSON.parse\<close> belong to the runtime, not to the repository: the codec takes them as
  a parameter. \<open>gzip\<close> includes the UTF-8 encoding of the string it is given and
  \<open>gunzip\<close> the decoding of \<^verbatim>\<open>toString('utf8')\<close>.
\<close>

record runtime =
  gzip :: "string \<Rightarrow> byte list"
  gunzip :: "byte list \<Rightarrow> error + string"
  base64_encode :: "byte list \<Rightarrow> string"
  base64_decode :: "string \<Rightarrow> byte list"
  JSON_parse :: "string \<Rightarrow> error + jsval"

record comp_config =
  comp_enabled :: bool
  minLength :: int

definition default_comp_config :: comp_config where
  "default_comp_config = \<lparr>comp_enabled = True, minLength = 500\<rparr>"

text \<open>\<^verbatim>\<open>compress(payload)\<close>. \<^verbatim>\<open>JSON.stringify(undefined)\<close> is \<^verbatim>\<open>undefined\<close>, whose
  \<^verbatim>\<open>length\<close> cannot be read.\<close>

definition compress :: "runtime \<Rightarrow> comp_config \<Rightarrow> jsval \<Rightarrow> error + jsval" where
  "compress rt cfg payload =
     (if \<not> comp_enabled cfg then Inr payload
      else case stringify payload of
             None \<Rightarrow> Inl TypeError
           | Some str \<Rightarrow>
               if int (length str) < minLength cfg then Inr payload
               else Inr (JObj [(''compressed'', JBool True),
                               (''encoding'', JStr ''gzip''),
                               (''data'', JStr (base64_encode rt (gzip rt str))),
                               (''originalLength'', JNum (int (length str)))]))"

text \<open>\<^verbatim>\<open>decompress(entry)\<close>. \<^verbatim>\<open>Buffer.from(entry.data, 'base64')\<close> takes a string; on
  \<^verbatim>\<open>undefined\<close>, \<^verbatim>\<open>null\<close>, a number or a boolean it throws a TypeError (arrays and
  array-like objects, which it would copy, are not covered and are a TypeError here).\<close>

definition decompress :: "runtime \<Rightarrow> jsval \<Rightarrow> error + jsval" where
  "decompress rt entry =
     (case get_prop entry ''compressed'' of
        Inl e \<Rightarrow> Inl e
      | Inr c \<Rightarrow>
          if \<not> truthy c then Inr entry
          else (case get_prop entry ''data'' of
                  Inl e \<Rightarrow> Inl e
                | Inr (JStr d) \<Rightarrow>
                    (case gunzip rt (base64_decode rt d) of
                       Inl e \<Rightarrow> Inl e
                     | Inr json \<Rightarrow> JSON_parse rt json)
                | Inr _ \<Rightarrow> Inl TypeError))"

section \<open>Statistics (cache-stats.js)\<close>

record stats =
  sets :: nat
  gets :: nat
  hits :: nat
  misses :: nat
  clears :: nat
  removed :: nat
  cleaned :: nat

definition initial_stats :: stats where
  "initial_stats = \<lparr>sets = 0, gets = 0, hits = 0, misses = 0, clears = 0, removed = 0, cleaned = 0\<rparr>"

definition recordSet :: "stats \<Rightarrow> stats" where
  "recordSet d = d\<lparr>sets := sets d + 1\<rparr>"

definition recordGet :: "bool \<Rightarrow> stats \<Rightarrow> stats" where
  "recordGet hit d =
     (let d' = d\<lparr>gets := gets d + 1\<rparr>
      in if hit then d'\<lparr>hits := hits d' + 1\<rparr> else d'\<lparr>misses := misses d' + 1\<rparr>)"

definition recordRemove :: "stats \<Rightarrow> stats" where
  "recordRemove d = d\<lparr>removed := removed d + 1\<rparr>"

definition recordCleanup :: "nat \<Rightarrow> stats \<Rightarrow> stats" where
  "recordCleanup n d = d\<lparr>cleaned := cleaned d + n\<rparr>"

definition recordClear :: "stats \<Rightarrow> stats" where
  "recordClear d = d\<lparr>clears := clears d + 1\<rparr>"

section \<open>Cache facade (cache-index.js)\<close>

text \<open>
  The state of the module is the store, the memo of the similarity service and the
  counters. An operation reads \<^verbatim>\<open>Date.now()\<close> several times while it awaits; \<open>clk i\<close>
  is its \<open>i\<close>-th reading. An operation returns the value or the error thrown, and the state
  it leaves. The options carry an explicit key (a string when given) and the
  disambiguators.
\<close>

record cache_config =
  enabled :: bool
  similarity :: sim_config
  compression :: comp_config
  ttl :: int

definition default_cache_config :: cache_config where
  "default_cache_config =
     \<lparr>enabled = True, similarity = default_sim_config, compression = default_comp_config,
      ttl = 2592000000\<rparr>"

record options =
  opt_key :: "string option"
  userId :: jsval
  model :: jsval

definition no_options :: options where
  "no_options = \<lparr>opt_key = None, userId = JUndefined, model = JUndefined\<rparr>"

record cache_state =
  store :: store
  memo :: memo
  stats :: stats

definition empty_state :: cache_state where
  "empty_state = \<lparr>store = [], memo = [], stats = initial_stats\<rparr>"

text \<open>\<^verbatim>\<open>${x || ''}\<close>.\<close>

definition or_empty :: "jsval \<Rightarrow> string" where
  "or_empty x = (if truthy x then js_toString x else [])"

text \<open>The string \<^verbatim>\<open>_generateKey\<close> hashes, for a query that is a string.\<close>

definition key_base :: "string \<Rightarrow> options \<Rightarrow> string" where
  "key_base q opts =
     trim (toLowerCase q) @ ''|'' @ or_empty (userId opts) @ ''|'' @ or_empty (model opts)"

text \<open>\<^verbatim>\<open>_generateKey(query, options)\<close>: only a string has \<^verbatim>\<open>toLowerCase\<close>.\<close>

definition generateKey :: "jsval \<Rightarrow> options \<Rightarrow> error + string" where
  "generateKey query opts =
     (case query of
        JStr q \<Rightarrow> Inr (''cache:'' @ md5_hex (key_base q opts))
      | _ \<Rightarrow> Inl TypeError)"

text \<open>\<^verbatim>\<open>options.key || this._generateKey(query, options)\<close>.\<close>

definition resolve_key :: "jsval \<Rightarrow> options \<Rightarrow> error + string" where
  "resolve_key query opts =
     (case opt_key opts of
        Some k \<Rightarrow> if k \<noteq> [] then Inr k else generateKey query opts
      | None \<Rightarrow> generateKey query opts)"

definition make_payload :: "jsval \<Rightarrow> jsval \<Rightarrow> int \<Rightarrow> string \<Rightarrow> jsval" where
  "make_payload query response ts key =
     JObj [(''query'', query), (''response'', response),
           (''meta'', JObj [(''ts'', JNum ts), (''key'', JStr key)])]"

text \<open>\<^verbatim>\<open>set(query, response, options)\<close>. The payload is an object, so
  \<^verbatim>\<open>JSON.stringify\<close> gives a text for it; \<open>clk 0\<close> is the reading for \<^verbatim>\<open>meta.ts\<close> and
  \<open>clk 1\<close> the one \<^verbatim>\<open>store.set\<close> takes.\<close>

definition facade_set ::
  "runtime \<Rightarrow> cache_config \<Rightarrow> (nat \<Rightarrow> int) \<Rightarrow> jsval \<Rightarrow> jsval \<Rightarrow> options \<Rightarrow> cache_state
     \<Rightarrow> (error + bool) \<times> cache_state" where
  "facade_set rt cfg clk query response opts st =
     (if \<not> enabled cfg then (Inr False, st)
      else case resolve_key query opts of
        Inl e \<Rightarrow> (Inl e, st)
      | Inr key \<Rightarrow>
          let payload = make_payload query response (clk 0) key;
              packed =
                (if comp_enabled (compression cfg)
                    \<and> int (length (the (stringify payload))) > minLength (compression cfg)
                 then compress rt (compression cfg) payload
                 else Inr payload)
          in case packed of
               Inl e \<Rightarrow> (Inl e, st)
             | Inr payload' \<Rightarrow>
                 (case store_set (clk 1) key payload' (ttl cfg) (store st) of
                    (success, s') \<Rightarrow>
                      (Inr success, st\<lparr>store := s', stats := recordSet (stats st)\<rparr>)))"

text \<open>What \<^verbatim>\<open>store.get\<close> hands to the facade: the entry object
  \<^verbatim>\<open>{ value, createdAt, expiresAt }\<close>, or \<^verbatim>\<open>null\<close>.\<close>

definition entry_obj :: "entry \<Rightarrow> jsval" where
  "entry_obj e =
     JObj [(''value'', value e), (''createdAt'', JNum (createdAt e)),
           (''expiresAt'', JNum (expiresAt e))]"

definition item_val :: "entry option \<Rightarrow> jsval" where
  "item_val r = (case r of None \<Rightarrow> JNull | Some e \<Rightarrow> entry_obj e)"

definition getByKey :: "runtime \<Rightarrow> int \<Rightarrow> string \<Rightarrow> store \<Rightarrow> (error + jsval) \<times> store" where
  "getByKey rt now key s =
     (case store_get now key s of
        (r, s') \<Rightarrow>
          let cached = item_val r in
          if \<not> truthy cached then (Inr JNull, s')
          else case get_prop cached ''compressed'' of
                 Inl e \<Rightarrow> (Inl e, s')
               | Inr c \<Rightarrow>
                   (case (if truthy c then decompress rt cached else Inr cached) of
                      Inl e \<Rightarrow> (Inl e, s')
                    | Inr cached' \<Rightarrow> (get_prop cached' ''response'', s')))"

text \<open>\<^verbatim>\<open>item.compressed ? (await compression.decompress(item)).query : item.query\<close>.\<close>

definition query_of_item :: "runtime \<Rightarrow> jsval \<Rightarrow> error + jsval" where
  "query_of_item rt item =
     (case get_prop item ''compressed'' of
        Inl e \<Rightarrow> Inl e
      | Inr c \<Rightarrow>
          if truthy c
          then (case decompress rt item of Inl e \<Rightarrow> Inl e | Inr d \<Rightarrow> get_prop d ''query'')
          else get_prop item ''query'')"

text \<open>The loop of \<^verbatim>\<open>_findSimilar\<close> that builds the pool: the \<open>i\<close>-th key is fetched at
  the reading \<open>clk i\<close>, and \<^verbatim>\<open>queries[key] = q\<close> adds a property.\<close>

fun build_pool ::
  "runtime \<Rightarrow> (nat \<Rightarrow> int) \<Rightarrow> nat \<Rightarrow> string list \<Rightarrow> store \<Rightarrow> (string \<times> jsval) list
     \<Rightarrow> (error + (string \<times> jsval) list) \<times> store" where
  "build_pool rt clk i [] s queries = (Inr queries, s)"
| "build_pool rt clk i (key # keys) s queries =
     (case store_get (clk i) key s of
        (r, s') \<Rightarrow>
          (case query_of_item rt (item_val r) of
             Inl e \<Rightarrow> (Inl e, s')
           | Inr q \<Rightarrow> build_pool rt clk (Suc i) keys s' (AList.update key q queries)))"

definition findSimilar ::
  "runtime \<Rightarrow> cache_config \<Rightarrow> (nat \<Rightarrow> int) \<Rightarrow> jsval \<Rightarrow> cache_state
     \<Rightarrow> (error + jsval) \<times> cache_state" where
  "findSimilar rt cfg clk query st =
     (let keys = store_getKeys (store st) in
      case build_pool rt clk 0 keys (store st) [] of
        (Inl e, s') \<Rightarrow> (Inl e, st\<lparr>store := s'\<rparr>)
      | (Inr queries, s') \<Rightarrow>
          (case findBestMatch (similarity cfg) (memo st) query queries
                  (threshold (similarity cfg)) of
             (Inl e, c') \<Rightarrow> (Inl e, st\<lparr>store := s', memo := c'\<rparr>)
           | (Inr None, c') \<Rightarrow> (Inr JNull, st\<lparr>store := s', memo := c'\<rparr>)
           | (Inr (Some best), c') \<Rightarrow>
               (case store_get (clk (length keys)) (m_key best) s' of
                  (r, s'') \<Rightarrow>
                    let item = item_val r in
                    (case get_prop item ''compressed'' of
                       Inl e \<Rightarrow> (Inl e, st\<lparr>store := s'', memo := c'\<rparr>)
                     | Inr c \<Rightarrow>
                         ((if truthy c then decompress rt item else Inr item),
                          st\<lparr>store := s'', memo := c'\<rparr>)))))"

definition facade_get ::
  "runtime \<Rightarrow> cache_config \<Rightarrow> (nat \<Rightarrow> int) \<Rightarrow> jsval \<Rightarrow> options \<Rightarrow> cache_state
     \<Rightarrow> (error + jsval) \<times> cache_state" where
  "facade_get rt cfg clk query opts st =
     (if \<not> enabled cfg then (Inr JNull, st)
      else if opt_key opts \<noteq> None \<and> opt_key opts \<noteq> Some []
      then (case getByKey rt (clk 0) (the (opt_key opts)) (store st) of
              (Inl e, s') \<Rightarrow> (Inl e, st\<lparr>store := s'\<rparr>)
            | (Inr item, s') \<Rightarrow>
                (Inr item, st\<lparr>store := s', stats := recordGet (truthy item) (stats st)\<rparr>))
      else if sim_enabled (similarity cfg)
      then (case findSimilar rt cfg clk query st of
              (Inl e, st') \<Rightarrow> (Inl e, st')
            | (Inr best, st') \<Rightarrow>
                if truthy best
                then (case get_prop best ''response'' of
                        Inl e \<Rightarrow> (Inl e, st'\<lparr>stats := recordGet True (stats st')\<rparr>)
                      | Inr response \<Rightarrow>
                          (Inr response, st'\<lparr>stats := recordGet True (stats st')\<rparr>))
                else (Inr JNull, st'\<lparr>stats := recordGet False (stats st')\<rparr>))
      else (Inr JNull, st\<lparr>stats := recordGet False (stats st)\<rparr>))"

definition facade_remove :: "string \<Rightarrow> cache_state \<Rightarrow> bool \<times> cache_state" where
  "facade_remove key st =
     (case store_remove key (store st) of
        (result, s') \<Rightarrow> (result, st\<lparr>store := s', stats := recordRemove (stats st)\<rparr>))"

definition facade_cleanup :: "int \<Rightarrow> cache_state \<Rightarrow> nat \<times> cache_state" where
  "facade_cleanup now st =
     (case store_cleanup now (store st) of
        (n, s') \<Rightarrow> (n, st\<lparr>store := s', stats := recordCleanup n (stats st)\<rparr>))"

definition facade_clear :: "cache_state \<Rightarrow> bool \<times> cache_state" where
  "facade_clear st =
     (case store_clear (store st) of
        (result, s') \<Rightarrow> (result, st\<lparr>store := s', stats := recordClear (stats st)\<rparr>))"

section \<open>A runtime for the examples\<close>

text \<open>
  A stand-in for the runtime, so that the operations can be run on concrete inputs: base64
  as the runtime encodes it, a container that puts the two gzip magic bytes before the
  bytes of the text and refuses a stream that does not start with them, and a parser that
  knows the documents of a given list.
\<close>

definition base64_alphabet :: string where
  "base64_alphabet = ''ABCDEFGHIJKLMNOPQRSTUVWXYZabcdefghijklmnopqrstuvwxyz0123456789+/''"

fun sample_base64_encode :: "byte list \<Rightarrow> string" where
  "sample_base64_encode [] = []"
| "sample_base64_encode [a] =
     (let x = unat a
      in [base64_alphabet ! (x div 4), base64_alphabet ! (x mod 4 * 16), CHR ''='', CHR ''=''])"
| "sample_base64_encode [a, b] =
     (let x = unat a; y = unat b
      in [base64_alphabet ! (x div 4), base64_alphabet ! (x mod 4 * 16 + y div 16),
          base64_alphabet ! (y mod 16 * 4), CHR ''=''])"
| "sample_base64_encode (a # b # c # rest) =
     (let x = unat a; y = unat b; z = unat c
      in [base64_alphabet ! (x div 4), base64_alphabet ! (x mod 4 * 16 + y div 16),
          base64_alphabet ! (y mod 16 * 4 + z div 64), base64_alphabet ! (z mod 64)]
         @ sample_base64_encode rest)"

definition sextet :: "char \<Rightarrow> nat" where
  "sextet c = length (takeWhile (\<lambda>d. d \<noteq> c) base64_alphabet)"

fun sextets_decode :: "nat list \<Rightarrow> byte list" where
  "sextets_decode (p # q # r # s # rest) =
     [of_nat (p * 4 + q div 16), of_nat (q mod 16 * 16 + r div 4), of_nat (r mod 4 * 64 + s)]
     @ sextets_decode rest"
| "sextets_decode [p, q, r] = [of_nat (p * 4 + q div 16), of_nat (q mod 16 * 16 + r div 4)]"
| "sextets_decode [p, q] = [of_nat (p * 4 + q div 16)]"
| "sextets_decode _ = []"

definition sample_base64_decode :: "string \<Rightarrow> byte list" where
  "sample_base64_decode s =
     sextets_decode (map sextet (takeWhile (\<lambda>c. c \<in> set base64_alphabet) s))"

definition sample_gzip :: "string \<Rightarrow> byte list" where
  "sample_gzip s = [0x1f, 0x8b] @ utf8_encode s"

fun utf8_decode :: "byte list \<Rightarrow> string" where
  "utf8_decode [] = []"
| "utf8_decode [a] = [char_of (unat a)]"
| "utf8_decode (a # b # rest) =
     (if unat a < 128 then char_of (unat a) # utf8_decode (b # rest)
      else char_of ((unat a - 192) * 64 + (unat b - 128)) # utf8_decode rest)"

definition sample_gunzip :: "byte list \<Rightarrow> error + string" where
  "sample_gunzip bs =
     (case bs of
        a # b # rest \<Rightarrow> if a = 0x1f \<and> b = 0x8b then Inr (utf8_decode rest) else Inl DecodeError
      | _ \<Rightarrow> Inl DecodeError)"

definition parse_known :: "jsval list \<Rightarrow> string \<Rightarrow> error + jsval" where
  "parse_known docs s =
     (case find (\<lambda>x. stringify x = Some s) docs of
        Some x \<Rightarrow> Inr x
      | None \<Rightarrow> Inl SyntaxError)"

definition sample_runtime :: "jsval list \<Rightarrow> runtime" where
  "sample_runtime docs =
     \<lparr>gzip = sample_gzip, gunzip = sample_gunzip, base64_encode = sample_base64_encode,
      base64_decode = sample_base64_decode, JSON_parse = parse_known docs\<rparr>"

section \<open>Store: expiry on read\<close>

lemma store_wf_empty: "store_wf []"
  by (simp add: store_wf_def)

lemma store_wf_set: "store_wf s \<Longrightarrow> store_wf (snd (store_set now key v t s))"
  by (simp add: store_wf_def store_set_def Let_def distinct_update)

lemma store_wf_delete: "store_wf s \<Longrightarrow> store_wf (AList.delete key s)"
  by (simp add: store_wf_def distinct_delete)

lemma store_wf_get: "store_wf s \<Longrightarrow> store_wf (snd (store_get now key s))"
  by (simp add: store_get_def store_wf_delete split: option.splits)

lemma cleanup_loop_eq:
  "cleanup_loop now xs s n =
     (n + length (filter (expired now) xs),
      filter (\<lambda>p. fst p \<notin> fst ` set (filter (expired now) xs)) s)"
proof (induction xs arbitrary: s n)
  case Nil
  then show ?case by simp
next
  case (Cons x xs)
  obtain key item where x: "x = (key, item)" by (cases x)
  show ?case
  proof (cases "expiresAt item < now")
    case True
    have "filter (\<lambda>p. fst p \<notin> fst ` set (filter (expired now) xs)) (AList.delete key s)
        = filter (\<lambda>p. fst p \<notin> fst ` set (filter (expired now) (x # xs))) s"
      using True by (auto simp: x expired_def AList.delete_eq intro!: filter_cong)
    then show ?thesis using True Cons.IH [of "AList.delete key s" "Suc n"]
      by (simp add: x expired_def)
  next
    case False
    then show ?thesis using Cons.IH [of s n] by (simp add: x expired_def)
  qed
qed

lemma filter_not_expired_keys:
  "distinct (map fst s) \<Longrightarrow>
   filter (\<lambda>p. fst p \<notin> fst ` set (filter (expired now) s)) s = filter (\<lambda>p. \<not> expired now p) s"
proof (rule filter_cong)
  fix p assume d: "distinct (map fst s)" and p: "p \<in> set s"
  show "(fst p \<notin> fst ` set (filter (expired now) s)) = (\<not> expired now p)"
  proof
    assume "fst p \<notin> fst ` set (filter (expired now) s)"
    with p show "\<not> expired now p" by force
  next
    assume n: "\<not> expired now p"
    show "fst p \<notin> fst ` set (filter (expired now) s)"
    proof
      assume "fst p \<in> fst ` set (filter (expired now) s)"
      then obtain q where q: "q \<in> set s" "expired now q" "fst q = fst p" by auto
      from d p q(1) q(3) have "q = p"
        by (metis eq_key_imp_eq_value prod.collapse)
      with n q(2) show False by simp
    qed
  qed
qed simp

lemma store_cleanup_eq:
  "store_wf s \<Longrightarrow> store_cleanup now s =
     (length (filter (expired now) s), filter (\<lambda>p. \<not> expired now p) s)"
  unfolding store_cleanup_def cleanup_loop_eq store_wf_def
  using filter_not_expired_keys [of s now] by simp

text \<open>
  Claim C3 (as amended): \<^verbatim>\<open>Store.get(key)\<close> at the reading \<open>now\<close> returns the stored
  entry exactly when the key is present and \<open>now \<le> expiresAt\<close> (the test of the code is
  \<^verbatim>\<open>expiresAt < now\<close>, so an entry is still returned at the very millisecond it
  expires), leaving the store as it is; otherwise it returns \<^verbatim>\<open>null\<close>, and an entry
  with \<open>expiresAt < now\<close> is deleted on the way, every other key keeping its entry. So every
  entry it returns satisfies \<open>now \<le> expiresAt\<close>.
\<close>

theorem store_get_live_only:
  assumes "store_get now key s = (r, s')"
  shows "(\<forall>e. r = Some e \<longrightarrow> map_of s key = Some e \<and> now \<le> expiresAt e \<and> s' = s)
    \<and> (\<forall>e. map_of s key = Some e \<and> now \<le> expiresAt e \<longrightarrow> r = Some e)
    \<and> (\<forall>e. map_of s key = Some e \<and> expiresAt e < now \<longrightarrow>
          r = None \<and> s' = AList.delete key s)
    \<and> (r = None \<longrightarrow> map_of s' key = None \<and> (\<forall>k. k \<noteq> key \<longrightarrow> map_of s' k = map_of s k))"
proof (cases "map_of s key")
  case None
  then have "r = None \<and> s' = s"
    using assms by (simp add: store_get_def)
  with None show ?thesis by simp
next
  case (Some e)
  show ?thesis
  proof (cases "expiresAt e < now")
    case True
    then have "r = None \<and> s' = AList.delete key s"
      using assms Some by (simp add: store_get_def)
    with Some True show ?thesis by (simp add: delete_conv')
  next
    case False
    then have "r = Some e \<and> s' = s"
      using assms Some by (auto simp add: store_get_def)
    with Some False show ?thesis by simp
  qed
qed

theorem store_get_live_only_witness:
  "fst (store_get 4 ''k'' [(''k'', \<lparr>value = JNull, createdAt = 0, expiresAt = 5\<rparr>)])
     = Some \<lparr>value = JNull, createdAt = 0, expiresAt = 5\<rparr>
   \<and> fst (store_get 6 ''k'' [(''k'', \<lparr>value = JNull, createdAt = 0, expiresAt = 5\<rparr>)]) = None
   \<and> snd (store_get 6 ''k'' [(''k'', \<lparr>value = JNull, createdAt = 0, expiresAt = 5\<rparr>)]) = []"
  using store_get_live_only [of 4 "''k''" "[(''k'', \<lparr>value = JNull, createdAt = 0, expiresAt = 5\<rparr>)]"
      "fst (store_get 4 ''k'' [(''k'', \<lparr>value = JNull, createdAt = 0, expiresAt = 5\<rparr>)])"
      "snd (store_get 4 ''k'' [(''k'', \<lparr>value = JNull, createdAt = 0, expiresAt = 5\<rparr>)])"]
    store_get_live_only [of 6 "''k''" "[(''k'', \<lparr>value = JNull, createdAt = 0, expiresAt = 5\<rparr>)]"
      "fst (store_get 6 ''k'' [(''k'', \<lparr>value = JNull, createdAt = 0, expiresAt = 5\<rparr>)])"
      "snd (store_get 6 ''k'' [(''k'', \<lparr>value = JNull, createdAt = 0, expiresAt = 5\<rparr>)])"]
  by simp

text \<open>
  Claim C3 as stated asks for \<open>now < expiresAt\<close> on every returned entry. An entry set at
  time 0 with a time to live of 5 is returned by a read at time 5.
\<close>

theorem store_get_boundary_counterexample:
  "fst (store_get 5 ''k'' (snd (store_set 0 ''k'' JNull 5 [])))
     = Some \<lparr>value = JNull, createdAt = 0, expiresAt = 5\<rparr>
   \<and> \<not> (5 < expiresAt \<lparr>value = JNull, createdAt = 0, expiresAt = 5\<rparr>)"
  by (simp add: store_get_def store_set_def)

section \<open>Store: the cleanup sweep\<close>

text \<open>
  Claim C8: in a store whose entries are all either expired (\<open>expiresAt < now\<close>, N of them)
  or in the future (\<open>now < expiresAt\<close>, M of them), \<^verbatim>\<open>cleanup()\<close> returns N, deletes
  exactly the expired entries and leaves the others as they were, in their order; the
  keys listed afterwards are M.
\<close>

theorem store_cleanup_removes_expired:
  assumes "store_wf s"
    and "\<forall>p \<in> set s. expiresAt (snd p) \<noteq> now"
  shows "fst (store_cleanup now s) = length (filter (\<lambda>p. expiresAt (snd p) < now) s)
     \<and> snd (store_cleanup now s) = filter (\<lambda>p. now < expiresAt (snd p)) s
     \<and> length (store_getKeys (snd (store_cleanup now s)))
         = length (filter (\<lambda>p. now < expiresAt (snd p)) s)"
proof -
  have "filter (\<lambda>p. \<not> expired now p) s = filter (\<lambda>p. now < expiresAt (snd p)) s"
    using assms(2) by (intro filter_cong) (auto simp: expired_def)
  moreover have "filter (expired now) s = filter (\<lambda>p. expiresAt (snd p) < now) s"
    by (intro filter_cong) (auto simp: expired_def)
  ultimately show ?thesis
    using store_cleanup_eq [OF assms(1), of now] by (simp add: store_getKeys_def)
qed

theorem store_cleanup_removes_expired_witness:
  "fst (store_cleanup 10
      [(''a'', \<lparr>value = JNull, createdAt = 0, expiresAt = 3\<rparr>),
       (''b'', \<lparr>value = JNull, createdAt = 0, expiresAt = 20\<rparr>),
       (''c'', \<lparr>value = JNull, createdAt = 0, expiresAt = 9\<rparr>)]) = 2
   \<and> store_getKeys (snd (store_cleanup 10
      [(''a'', \<lparr>value = JNull, createdAt = 0, expiresAt = 3\<rparr>),
       (''b'', \<lparr>value = JNull, createdAt = 0, expiresAt = 20\<rparr>),
       (''c'', \<lparr>value = JNull, createdAt = 0, expiresAt = 9\<rparr>)])) = [''b'']"
  using store_cleanup_removes_expired [of
      "[(''a'', \<lparr>value = JNull, createdAt = 0, expiresAt = 3\<rparr>),
       (''b'', \<lparr>value = JNull, createdAt = 0, expiresAt = 20\<rparr>),
       (''c'', \<lparr>value = JNull, createdAt = 0, expiresAt = 9\<rparr>)]" 10]
  by (simp add: store_wf_def store_getKeys_def)


section \<open>Double precision: rounding keeps the unit interval\<close>

lemma round_double_0: "round_double 0 = 0"
  by (simp add: round_double_def)

lemma round_double_1: "round_double 1 = 1"
  by code_simp

lemma bitlen_pos: "0 < x \<Longrightarrow> 1 \<le> bitlen x"
  by (auto simp: bitlen_alt_def)

lemma pow2_of_int:
  fixes n :: int
  shows "2 ^ k \<le> n \<Longrightarrow> (2 :: rat) ^ k \<le> of_int n"
    and "n \<le> 2 ^ k \<Longrightarrow> (of_int n :: rat) \<le> 2 ^ k"
    and "n < 2 ^ k \<Longrightarrow> (of_int n :: rat) < 2 ^ k"
  using of_int_le_iff [where ?'a = rat, of "2 ^ k" n] of_int_le_iff [where ?'a = rat, of n "2 ^ k"]
    of_int_less_iff [where ?'a = rat, of n "2 ^ k"]
  by simp_all

lemma binary_exponent_small:
  fixes a :: rat
  assumes "0 < a" "a < 1"
  shows "binary_exponent a \<le> - 1 \<and> 2 powi binary_exponent a \<le> a
    \<and> a < 2 powi (binary_exponent a + 1)"
proof -
  define c where "c = \<lceil>1 / a\<rceil> - 1"
  define b where "b = bitlen c"
  have inv: "1 < 1 / a" using assms by simp
  then have "2 \<le> \<lceil>1 / a\<rceil>" by (simp add: le_ceiling_iff)
  then have cpos: "0 < c" by (simp add: c_def)
  have b1: "1 \<le> b" unfolding b_def using cpos by (rule bitlen_pos)
  have e: "binary_exponent a = - b"
    using assms by (simp add: binary_exponent_def b_def c_def)
  from bitlen_bounds [OF cpos] have lo: "2 ^ nat (b - 1) \<le> c" and hi: "c < 2 ^ nat b"
    by (simp_all add: b_def)
  have c1: "of_int c < 1 / a" unfolding c_def by simp linarith
  have c2: "1 / a \<le> of_int (c + 1)" unfolding c_def by simp
  have "c + 1 \<le> 2 ^ nat b" using hi by simp
  then have "(of_int (c + 1) :: rat) \<le> 2 ^ nat b" by (rule pow2_of_int)
  with c2 have "1 / a \<le> 2 ^ nat b" by linarith
  then have low: "1 / 2 ^ nat b \<le> a"
    using assms(1) by (simp add: field_simps)
  have "(2 :: rat) ^ nat (b - 1) \<le> of_int c" using lo by (rule pow2_of_int)
  with c1 have "(2 :: rat) ^ nat (b - 1) < 1 / a" by linarith
  then have up: "a < 1 / 2 ^ nat (b - 1)"
    using assms(1) by (simp add: field_simps)
  have p1: "(2 :: rat) powi (- b) = 1 / 2 ^ nat b"
    using b1 by (simp add: power_int_def inverse_eq_divide power_one_over)
  have p2: "(2 :: rat) powi (- b + 1) = 1 / 2 ^ nat (b - 1)"
  proof (cases "b = 1")
    case True
    then show ?thesis by simp
  next
    case False
    with b1 have "- b + 1 < 0" by simp
    moreover have "nat (- (- b + 1)) = nat (b - 1)" by simp
    ultimately show ?thesis
      by (simp add: power_int_def inverse_eq_divide power_one_over)
  qed
  show ?thesis unfolding e p1 p2 using b1 low up by simp
qed

lemma binary_exponent_large:
  fixes a :: rat
  assumes "1 \<le> a"
  shows "0 \<le> binary_exponent a \<and> 2 powi binary_exponent a \<le> a
    \<and> a < 2 powi (binary_exponent a + 1)"
proof -
  define n where "n = \<lfloor>a\<rfloor>"
  define b where "b = bitlen n"
  have npos: "0 < n" using assms by (simp add: n_def)
  have b1: "1 \<le> b" unfolding b_def using npos by (rule bitlen_pos)
  have e: "binary_exponent a = b - 1"
    using assms by (simp add: binary_exponent_def b_def n_def)
  from bitlen_bounds [OF npos] have lo: "2 ^ nat (b - 1) \<le> n" and hi: "n < 2 ^ nat b"
    by (simp_all add: b_def)
  have "(2 :: rat) ^ nat (b - 1) \<le> of_int n" using lo by (rule pow2_of_int)
  moreover have "of_int n \<le> a" by (simp add: n_def)
  ultimately have low: "(2 :: rat) ^ nat (b - 1) \<le> a" by linarith
  have "n + 1 \<le> 2 ^ nat b" using hi by simp
  then have "(of_int (n + 1) :: rat) \<le> 2 ^ nat b" by (rule pow2_of_int)
  moreover have "a < of_int (n + 1)" unfolding n_def by linarith
  ultimately have up: "a < 2 ^ nat b" by linarith
  have p1: "(2 :: rat) powi (b - 1) = 2 ^ nat (b - 1)"
    using b1 by (simp add: power_int_def)
  have p2: "(2 :: rat) powi (b - 1 + 1) = 2 ^ nat b"
    using b1 by (simp add: power_int_def)
  show ?thesis unfolding e p1 p2 using b1 low up by simp
qed

lemma binary_exponent_bounds:
  fixes a :: rat
  assumes "0 < a"
  shows "2 powi binary_exponent a \<le> a \<and> a < 2 powi (binary_exponent a + 1)"
  using binary_exponent_small [of a] binary_exponent_large [of a] assms
  by (cases "a < 1") auto

lemma round_double_unit:
  assumes "0 \<le> x" "x \<le> 1"
  shows "0 \<le> round_double x \<and> round_double x \<le> 1"
proof (cases "x = 0 \<or> x = 1")
  case True
  then show ?thesis using round_double_0 round_double_1 by auto
next
  case False
  with assms have x: "0 < x" "x < 1" by auto
  define e where "e = max (binary_exponent x) (- 1022)"
  define u :: rat where "u = 2 powi (e - 52)"
  define n where "n = \<lfloor>x / u\<rfloor>"
  define r where "r = x / u - of_int n"
  define m where "m = (if r < 1 / 2 then n else if 1 / 2 < r then n + 1
                       else if even n then n else n + 1)"
  have rd: "round_double x = of_int m * u"
    using x by (simp add: round_double_def Let_def e_def u_def n_def r_def m_def)
  from binary_exponent_small [OF x] have e0: "binary_exponent x \<le> - 1"
    and up: "x < 2 powi (binary_exponent x + 1)" by simp_all
  have e1: "e \<le> - 1" using e0 by (simp add: e_def)
  have "(2 :: rat) powi (binary_exponent x + 1) \<le> 2 powi (e + 1)"
    by (rule power_int_increasing) (simp_all add: e_def)
  with up have xe: "x < 2 powi (e + 1)" by simp
  have upos: "0 < u" by (simp add: u_def)
  have split: "(2 :: rat) powi (e + 1) = 2 ^ 53 * u"
  proof -
    have "e + 1 = 53 + (e - 52)" by simp
    then have "(2 :: rat) powi (e + 1) = 2 powi (53 + (e - 52))" by (rule arg_cong)
    also have "\<dots> = 2 powi 53 * 2 powi (e - 52)" by (rule power_int_add) simp
    finally show ?thesis by (simp add: u_def)
  qed
  have "x < 2 ^ 53 * u" using xe by (simp only: split)
  then have "x / u < 2 ^ 53" using upos by (simp add: pos_divide_less_eq)
  then have "n < 2 ^ 53" unfolding n_def by (simp add: floor_less_iff)
  moreover have "0 \<le> n" unfolding n_def using x upos by simp
  ultimately have mb: "0 \<le> m" "m \<le> 2 ^ 53" by (auto simp: m_def)
  have "0 \<le> of_int m * u" using mb(1) upos by simp
  moreover have "of_int m * u \<le> 2 ^ 53 * u"
  proof -
    have "(of_int m :: rat) \<le> 2 ^ 53" using mb(2) by (rule pow2_of_int)
    then show ?thesis using upos by simp
  qed
  moreover have "(2 :: rat) powi (e + 1) \<le> 1"
  proof -
    have "(2 :: rat) powi (e + 1) \<le> 2 powi 0"
      using e1 by (intro power_int_increasing) simp_all
    then show ?thesis by simp
  qed
  ultimately show ?thesis using split by (simp add: rd)
qed

section \<open>Similarity matcher: the matrix computes the Levenshtein distance\<close>

lemma lev_d_zero_right: "lev_d a b i 0 = i"
  by (cases i) simp_all

lemma lev_d_le_max: "lev_d a b i j \<le> max i j"
  by (induction a b i j rule: lev_d.induct) auto

lemma lev_d_sym: "lev_d a b i j = lev_d b a j i"
proof (induction a b i j rule: lev_d.induct)
  case (1 a b j)
  then show ?case by (simp add: lev_d_zero_right)
next
  case (2 a b i)
  then show ?case by simp
next
  case (3 a b i j)
  then show ?case by (simp add: min.commute eq_commute [of "a ! i"])
qed

lemma lev_d_same: "lev_d a a i i = 0"
  by (induction i) simp_all

lemma fill_row_lev_d:
  assumes "j \<le> length b"
  shows "fill_row (a ! i) (drop j b) (map (lev_d a b i) [j..<Suc (length b)]) (lev_d a b (Suc i) j)
           = map (lev_d a b (Suc i)) [Suc j..<Suc (length b)]"
  using assms
proof (induction "length b - j" arbitrary: j)
  case 0
  then have "j = length b" by simp
  then show ?case by simp
next
  case (Suc n)
  then have lt: "j < length b" by simp
  have d: "drop j b = b ! j # drop (Suc j) b"
    using lt by (simp add: Cons_nth_drop_Suc)
  have u: "[j..<Suc (length b)] = j # Suc j # [Suc (Suc j)..<Suc (length b)]"
    using lt by (simp add: upt_conv_Cons)
  have u': "[Suc j..<Suc (length b)] = Suc j # [Suc (Suc j)..<Suc (length b)]"
    using lt by (simp add: upt_conv_Cons)
  have ih: "fill_row (a ! i) (drop (Suc j) b) (map (lev_d a b i) [Suc j..<Suc (length b)])
              (lev_d a b (Suc i) (Suc j)) = map (lev_d a b (Suc i)) [Suc (Suc j)..<Suc (length b)]"
    using Suc.hyps(1) [of "Suc j"] Suc.hyps(2) lt by simp
  have step: "fill_row (a ! i) (b ! j # drop (Suc j) b)
        (lev_d a b i j # lev_d a b i (Suc j) # map (lev_d a b i) [Suc (Suc j)..<Suc (length b)])
        (lev_d a b (Suc i) j)
      = lev_d a b (Suc i) (Suc j)
        # fill_row (a ! i) (drop (Suc j) b)
            (lev_d a b i (Suc j) # map (lev_d a b i) [Suc (Suc j)..<Suc (length b)])
            (lev_d a b (Suc i) (Suc j))"
    by (simp add: Let_def del: upt_Suc)
  have "fill_row (a ! i) (drop j b) (map (lev_d a b i) [j..<Suc (length b)]) (lev_d a b (Suc i) j)
      = lev_d a b (Suc i) (Suc j)
        # fill_row (a ! i) (drop (Suc j) b) (map (lev_d a b i) [Suc j..<Suc (length b)])
            (lev_d a b (Suc i) (Suc j))"
    unfolding d u u' list.map by (rule step)
  also have "\<dots> = lev_d a b (Suc i) (Suc j) # map (lev_d a b (Suc i)) [Suc (Suc j)..<Suc (length b)]"
    by (simp only: ih)
  also have "\<dots> = map (lev_d a b (Suc i)) [Suc j..<Suc (length b)]"
    unfolding u' list.map ..
  finally show ?case .
qed

lemma lev_rows_lev_d:
  assumes "i \<le> length a"
  shows "lev_rows (drop i a) b (Suc i) (map (lev_d a b i) [0..<Suc (length b)])
           = map (\<lambda>i'. map (lev_d a b i') [0..<Suc (length b)]) [Suc i..<Suc (length a)]"
  using assms
proof (induction "length a - i" arbitrary: i)
  case 0
  then have "i = length a" by simp
  then show ?case by simp
next
  case (Suc n)
  then have lt: "i < length a" by simp
  have d: "drop i a = a ! i # drop (Suc i) a"
    using lt by (simp add: Cons_nth_drop_Suc)
  have row: "Suc i # fill_row (a ! i) b (map (lev_d a b i) [0..<Suc (length b)]) (Suc i)
               = map (lev_d a b (Suc i)) [0..<Suc (length b)]"
    using fill_row_lev_d [of 0 b a i] by (simp add: upt_conv_Cons del: upt_Suc)
  have ih: "lev_rows (drop (Suc i) a) b (Suc (Suc i)) (map (lev_d a b (Suc i)) [0..<Suc (length b)])
           = map (\<lambda>i'. map (lev_d a b i') [0..<Suc (length b)]) [Suc (Suc i)..<Suc (length a)]"
    using Suc.hyps(1) [of "Suc i"] Suc.hyps(2) lt by simp
  have u: "[Suc i..<Suc (length a)] = Suc i # [Suc (Suc i)..<Suc (length a)]"
    using lt by (simp add: upt_conv_Cons)
  show ?case
    unfolding d u lev_rows.simps Let_def row
    using ih by simp
qed

lemma lev_matrix_lev_d:
  "lev_matrix a b = map (\<lambda>i. map (lev_d a b i) [0..<Suc (length b)]) [0..<Suc (length a)]"
proof -
  have r0: "[0..<Suc (length b)] = map (lev_d a b 0) [0..<Suc (length b)]"
    by (simp add: map_idI del: upt_Suc)
  have "lev_rows a b (Suc 0) (map (lev_d a b 0) [0..<Suc (length b)])
          = map (\<lambda>i'. map (lev_d a b i') [0..<Suc (length b)]) [Suc 0..<Suc (length a)]"
    using lev_rows_lev_d [of 0 a b] by simp
  then have "lev_matrix a b = map (lev_d a b 0) [0..<Suc (length b)]
      # map (\<lambda>i'. map (lev_d a b i') [0..<Suc (length b)]) [Suc 0..<Suc (length a)]"
    unfolding lev_matrix_def Let_def using r0 by simp
  also have "\<dots> = map (\<lambda>i. map (lev_d a b i) [0..<Suc (length b)]) [0..<Suc (length a)]"
    by (simp add: upt_conv_Cons del: upt_Suc)
  finally show ?thesis .
qed

lemma lev_matrix_distance: "lev_matrix a b ! length a ! length b = levenshtein a b"
proof -
  have "lev_matrix a b ! length a = map (lev_d a b (length a)) [0..<Suc (length b)]"
    unfolding lev_matrix_lev_d by (subst nth_map) (simp_all del: upt_Suc add: nth_upt)
  moreover have "map (lev_d a b (length a)) [0..<Suc (length b)] ! length b = lev_d a b (length a) (length b)"
    by (subst nth_map) (simp_all del: upt_Suc)
  ultimately show ?thesis by (simp add: levenshtein_def)
qed

lemma levenshteinSim_eq:
  "levenshteinSim a b =
     js_sub 1 (js_div (of_nat (levenshtein a b)) (of_nat (max (length a) (length b))))"
  by (simp add: levenshteinSim_def Let_def lev_matrix_distance)

section \<open>Similarity matcher: the best match\<close>

lemma match_loop_pick:
  "fst (match_loop cfg thr n es c best) = Inr r \<Longrightarrow>
     length (scan_scores cfg n es c) = length es
     \<and> r = pick thr (zip es (scan_scores cfg n es c)) best"
proof (induction es arbitrary: c best)
  case Nil
  then show ?case by simp
next
  case (Cons x es)
  obtain k v where x: "x = (k, v)" by (cases x)
  show ?case
  proof (cases "normalize cfg v")
    case (Inl e)
    with Cons.prems show ?thesis by (simp add: x)
  next
    case (Inr cand)
    obtain score c' where calc: "calculate cfg c n cand = (score, c')"
      by (cases "calculate cfg c n cand")
    show ?thesis
    proof (cases "score > thr \<and> (best = None \<or> score > m_score (the best))")
      case True
      then have "fst (match_loop cfg thr n es c' (Some \<lparr>m_key = k, m_query = v, m_score = score\<rparr>)) = Inr r"
        using Cons.prems by (simp add: x Inr calc)
      from Cons.IH [OF this] True show ?thesis
        by (simp add: x Inr calc)
    next
      case False
      then have "fst (match_loop cfg thr n es c' best) = Inr r"
        using Cons.prems by (auto simp add: x Inr calc)
      from Cons.IH [OF this] False show ?thesis
        by (auto simp add: x Inr calc)
    qed
  qed
qed

lemma pick_choice:
  assumes "pick thr xs best = r"
    and "\<And>b. best = Some b \<Longrightarrow> thr < m_score b"
  shows "(r = None \<longrightarrow> best = None \<and> (\<forall>x \<in> set xs. snd x \<le> thr))
    \<and> (\<forall>m. r = Some m \<longrightarrow> thr < m_score m
          \<and> ((best = Some m \<and> (\<forall>x \<in> set xs. snd x \<le> m_score m))
             \<or> (\<exists>pre post. xs = pre @ ((m_key m, m_query m), m_score m) # post
                   \<and> (\<forall>x \<in> set pre. snd x < m_score m)
                   \<and> (\<forall>x \<in> set post. snd x \<le> m_score m)
                   \<and> (\<forall>b. best = Some b \<longrightarrow> m_score b < m_score m))))"
  using assms
proof (induction xs arbitrary: best)
  case Nil
  then show ?case by auto
next
  case (Cons x xs)
  obtain k v s where x: "x = ((k, v), s)" by (cases x) auto
  show ?case
  proof (cases "s > thr \<and> (best = None \<or> s > m_score (the best))")
    case True
    let ?b = "\<lparr>m_key = k, m_query = v, m_score = s\<rparr>"
    have p: "pick thr xs (Some ?b) = r" using Cons.prems(1) True by (simp add: x)
    have ok: "\<And>b. Some ?b = Some b \<Longrightarrow> thr < m_score b" using True by auto
    note ih = Cons.IH [OF p ok]
    from ih have rn: "r \<noteq> None" by auto
    then obtain m where m: "r = Some m" by auto
    from ih m have thr: "thr < m_score m" by simp
    from ih m have alt: "(Some ?b = Some m \<and> (\<forall>x \<in> set xs. snd x \<le> m_score m))
             \<or> (\<exists>pre post. xs = pre @ ((m_key m, m_query m), m_score m) # post
                   \<and> (\<forall>x \<in> set pre. snd x < m_score m)
                   \<and> (\<forall>x \<in> set post. snd x \<le> m_score m)
                   \<and> (\<forall>b. Some ?b = Some b \<longrightarrow> m_score b < m_score m))" by simp
    have "\<exists>pre post. x # xs = pre @ ((m_key m, m_query m), m_score m) # post
                   \<and> (\<forall>x \<in> set pre. snd x < m_score m)
                   \<and> (\<forall>x \<in> set post. snd x \<le> m_score m)
                   \<and> (\<forall>b. best = Some b \<longrightarrow> m_score b < m_score m)"
      using alt
    proof
      assume a: "Some ?b = Some m \<and> (\<forall>x \<in> set xs. snd x \<le> m_score m)"
      then have mb: "m = ?b" by simp
      have "x # xs = [] @ ((m_key m, m_query m), m_score m) # xs" by (simp add: x mb)
      moreover have "\<forall>b. best = Some b \<longrightarrow> m_score b < m_score m"
        using True by (auto simp: mb)
      ultimately show ?thesis using a
        by (intro exI [of _ "[]"] exI [of _ xs]) simp
    next
      assume "\<exists>pre post. xs = pre @ ((m_key m, m_query m), m_score m) # post
                   \<and> (\<forall>x \<in> set pre. snd x < m_score m)
                   \<and> (\<forall>x \<in> set post. snd x \<le> m_score m)
                   \<and> (\<forall>b. Some ?b = Some b \<longrightarrow> m_score b < m_score m)"
      then obtain pre post where pp: "xs = pre @ ((m_key m, m_query m), m_score m) # post"
          "\<forall>x \<in> set pre. snd x < m_score m" "\<forall>x \<in> set post. snd x \<le> m_score m"
          "s < m_score m" by auto
      have "x # xs = (x # pre) @ ((m_key m, m_query m), m_score m) # post" by (simp add: pp(1))
      moreover have "\<forall>y \<in> set (x # pre). snd y < m_score m" using pp(2,4) by (simp add: x)
      moreover have "\<forall>b. best = Some b \<longrightarrow> m_score b < m_score m"
        using True pp(4) by auto
      ultimately show ?thesis using pp(3)
        by (intro exI [of _ "x # pre"] exI [of _ post]) simp
    qed
    with m thr show ?thesis by simp
  next
    case False
    have p: "pick thr xs best = r" using Cons.prems(1) False by (auto simp add: x)
    note ih = Cons.IH [OF p Cons.prems(2)]
    show ?thesis
    proof (cases r)
      case None
      with ih have "best = None" "\<forall>x \<in> set xs. snd x \<le> thr" by auto
      moreover from this False have "s \<le> thr" by auto
      ultimately show ?thesis using None by (simp add: x)
    next
      case (Some m)
      from ih Some have thr: "thr < m_score m" by simp
      from ih Some have alt: "(best = Some m \<and> (\<forall>x \<in> set xs. snd x \<le> m_score m))
             \<or> (\<exists>pre post. xs = pre @ ((m_key m, m_query m), m_score m) # post
                   \<and> (\<forall>x \<in> set pre. snd x < m_score m)
                   \<and> (\<forall>x \<in> set post. snd x \<le> m_score m)
                   \<and> (\<forall>b. best = Some b \<longrightarrow> m_score b < m_score m))" by simp
      have "(best = Some m \<and> (\<forall>y \<in> set (x # xs). snd y \<le> m_score m))
             \<or> (\<exists>pre post. x # xs = pre @ ((m_key m, m_query m), m_score m) # post
                   \<and> (\<forall>x \<in> set pre. snd x < m_score m)
                   \<and> (\<forall>x \<in> set post. snd x \<le> m_score m)
                   \<and> (\<forall>b. best = Some b \<longrightarrow> m_score b < m_score m))"
        using alt
      proof
        assume a: "best = Some m \<and> (\<forall>x \<in> set xs. snd x \<le> m_score m)"
        with False thr have "s \<le> m_score m" by auto
        with a show ?thesis by (simp add: x)
      next
        assume "\<exists>pre post. xs = pre @ ((m_key m, m_query m), m_score m) # post
                   \<and> (\<forall>x \<in> set pre. snd x < m_score m)
                   \<and> (\<forall>x \<in> set post. snd x \<le> m_score m)
                   \<and> (\<forall>b. best = Some b \<longrightarrow> m_score b < m_score m)"
        then obtain pre post where pp: "xs = pre @ ((m_key m, m_query m), m_score m) # post"
          "\<forall>x \<in> set pre. snd x < m_score m" "\<forall>x \<in> set post. snd x \<le> m_score m"
          "\<forall>b. best = Some b \<longrightarrow> m_score b < m_score m" by auto
        have "s < m_score m"
        proof (cases "s > thr")
          case True
          with False obtain b where "best = Some b" "s \<le> m_score b" by auto
          with pp(4) show ?thesis by auto
        next
          case False
          with thr show ?thesis by simp
        qed
        then have "\<forall>y \<in> set (x # pre). snd y < m_score m" using pp(2) by (simp add: x)
        moreover have "x # xs = (x # pre) @ ((m_key m, m_query m), m_score m) # post"
          by (simp add: pp(1))
        ultimately have "\<exists>pre post. x # xs = pre @ ((m_key m, m_query m), m_score m) # post
                   \<and> (\<forall>x \<in> set pre. snd x < m_score m)
                   \<and> (\<forall>x \<in> set post. snd x \<le> m_score m)
                   \<and> (\<forall>b. best = Some b \<longrightarrow> m_score b < m_score m)"
          using pp(3,4)
          by (intro exI [of _ "x # pre"] exI [of _ post]) simp
        then show ?thesis ..
      qed
      with Some thr show ?thesis by simp
    qed
  qed
qed


lemma zip_split_index:
  assumes "length es = length scores"
    and "zip es scores = pre @ (e, s) # post"
  shows "length pre < length es \<and> es ! length pre = e \<and> scores ! length pre = s
    \<and> (\<forall>j < length pre. scores ! j = snd (pre ! j))
    \<and> set scores = snd ` set pre \<union> {s} \<union> snd ` set post"
proof -
  have es: "es = map fst pre @ e # map fst post"
    using assms by (metis (no_types) fst_conv list.simps(9) map_append map_fst_zip)
  have sc: "scores = map snd pre @ s # map snd post"
    using assms by (metis (no_types) snd_conv list.simps(9) map_append map_snd_zip)
  show ?thesis
  proof (intro conjI allI impI)
    show "length pre < length es" by (subst es) simp
    show "es ! length pre = e" by (subst es) (simp add: nth_append)
    show "scores ! length pre = s" by (subst sc) (simp add: nth_append)
    show "set scores = snd ` set pre \<union> {s} \<union> snd ` set post" by (subst sc) auto
  next
    fix j assume "j < length pre"
    then show "scores ! j = snd (pre ! j)" by (subst sc) (simp add: nth_append)
  qed
qed

text \<open>
  Claim C6: \<^verbatim>\<open>findBestMatch\<close> returns a match only when some candidate's score is strictly
  above the threshold (with every score at or below it, it returns \<^verbatim>\<open>null\<close>), and the
  match is the first candidate, in the order of \<^verbatim>\<open>Object.entries(pool)\<close>, that reaches
  the highest score: every earlier candidate scores strictly less, no candidate scores
  more, so a later candidate with the same score does not replace it. The scores are the
  doubles \<^verbatim>\<open>_calculate\<close> returned during the scan, and the threshold is a double.
\<close>

theorem findBestMatch_first_strict_best:
  assumes "fst (findBestMatch cfg c query pool thr) = Inr r"
  shows "(\<not> sim_enabled cfg \<or> \<not> truthy query \<longrightarrow> r = None)
    \<and> (sim_enabled cfg \<and> truthy query \<longrightarrow>
        (\<exists>n. normalize cfg query = Inr n
          \<and> length (scan_scores cfg n (Object_entries pool) c) = length (Object_entries pool)
          \<and> (r = None \<longleftrightarrow> (\<forall>s \<in> set (scan_scores cfg n (Object_entries pool) c). s \<le> thr))
          \<and> (\<forall>m. r = Some m \<longrightarrow>
                (\<exists>i < length (Object_entries pool).
                   Object_entries pool ! i = (m_key m, m_query m)
                   \<and> scan_scores cfg n (Object_entries pool) c ! i = m_score m
                   \<and> thr < m_score m
                   \<and> (\<forall>j < i. scan_scores cfg n (Object_entries pool) c ! j < m_score m)
                   \<and> (\<forall>j < length (Object_entries pool).
                         scan_scores cfg n (Object_entries pool) c ! j \<le> m_score m)))))"
proof (cases "sim_enabled cfg \<and> truthy query")
  case False
  then show ?thesis using assms by (auto simp: findBestMatch_def)
next
  case True
  obtain n where n: "normalize cfg query = Inr n"
    using assms True by (cases "normalize cfg query") (auto simp: findBestMatch_def)
  define es where "es = Object_entries pool"
  define scores where "scores = scan_scores cfg n es c"
  have "fst (match_loop cfg thr n es c None) = Inr r"
    using assms True n by (simp add: findBestMatch_def es_def)
  from match_loop_pick [OF this]
  have len: "length scores = length es" and r: "pick thr (zip es scores) None = r"
    by (simp_all add: scores_def)
  have ch: "(r = None \<longrightarrow> (\<forall>x \<in> set (zip es scores). snd x \<le> thr))
    \<and> (\<forall>m. r = Some m \<longrightarrow> thr < m_score m
          \<and> (\<exists>pre post. zip es scores = pre @ ((m_key m, m_query m), m_score m) # post
                   \<and> (\<forall>x \<in> set pre. snd x < m_score m)
                   \<and> (\<forall>x \<in> set post. snd x \<le> m_score m)))"
    using pick_choice [OF r] by simp
  have some: "\<exists>i < length es. es ! i = (m_key m, m_query m) \<and> scores ! i = m_score m
        \<and> thr < m_score m \<and> (\<forall>j < i. scores ! j < m_score m)
        \<and> (\<forall>j < length es. scores ! j \<le> m_score m)" if m: "r = Some m" for m
  proof -
    from ch m obtain pre post where thr: "thr < m_score m"
      and z: "zip es scores = pre @ ((m_key m, m_query m), m_score m) # post"
      and pre: "\<forall>x \<in> set pre. snd x < m_score m"
      and post: "\<forall>x \<in> set post. snd x \<le> m_score m" by blast
    note sp = zip_split_index [OF len [symmetric] z]
    have before: "\<forall>j < length pre. scores ! j < m_score m"
      using sp pre by simp
    have all: "\<forall>s \<in> set scores. s \<le> m_score m"
    proof
      fix s assume "s \<in> set scores"
      then have "s \<in> snd ` set pre \<union> {m_score m} \<union> snd ` set post" using sp by simp
      then show "s \<le> m_score m" using pre post by force
    qed
    have "\<forall>j < length es. scores ! j \<le> m_score m"
      using all len by simp
    with sp thr before show ?thesis by (intro exI [of _ "length pre"]) simp
  qed
  have none: "r = None \<longleftrightarrow> (\<forall>s \<in> set scores. s \<le> thr)"
  proof
    assume "r = None"
    with ch have "\<forall>x \<in> set (zip es scores). snd x \<le> thr" by simp
    moreover have "set scores = snd ` set (zip es scores)"
      using len by (metis map_snd_zip set_map)
    ultimately show "\<forall>s \<in> set scores. s \<le> thr" by auto
  next
    assume a: "\<forall>s \<in> set scores. s \<le> thr"
    show "r = None"
    proof (rule ccontr)
      assume "r \<noteq> None"
      then obtain m where m: "r = Some m" by auto
      from some [OF m] obtain i where i: "i < length es" "scores ! i = m_score m" "thr < m_score m"
        by blast
      from i(1) len have "scores ! i \<in> set scores" by (intro nth_mem) simp
      with a have "scores ! i \<le> thr" by blast
      with i(2,3) show False by simp
    qed
  qed
  show ?thesis
    using True n len none some unfolding es_def scores_def by blast
qed

theorem findBestMatch_first_strict_best_witness:
  "fst (findBestMatch default_sim_config [] (JStr ''ab'')
      [(''p'', JStr ''ac''), (''x'', JStr ''AB''), (''y'', JStr ''ab'')] (1 / 2))
     = Inr (Some \<lparr>m_key = ''x'', m_query = JStr ''AB'', m_score = 1\<rparr>)
   \<and> (\<exists>n i. normalize default_sim_config (JStr ''ab'') = Inr n
        \<and> i < length (Object_entries [(''p'', JStr ''ac''), (''x'', JStr ''AB''), (''y'', JStr ''ab'')])
        \<and> Object_entries [(''p'', JStr ''ac''), (''x'', JStr ''AB''), (''y'', JStr ''ab'')] ! i
            = (''x'', JStr ''AB'')
        \<and> scan_scores default_sim_config n
              (Object_entries [(''p'', JStr ''ac''), (''x'', JStr ''AB''), (''y'', JStr ''ab'')]) [] ! i = 1)
   \<and> fst (findBestMatch default_sim_config [] (JStr ''abcdefghij'') [(''k'', JStr ''abcxxxxxxx'')]
          (round_double (3 / 10)))
     = Inr (Some \<lparr>m_key = ''k'', m_query = JStr ''abcxxxxxxx'',
                    m_score = 1351079888211149 / 4503599627370496\<rparr>)"
proof -
  have h0: "fst (findBestMatch default_sim_config [] (JStr ''abcdefghij'') [(''k'', JStr ''abcxxxxxxx'')]
          (round_double (3 / 10)))
     = Inr (Some \<lparr>m_key = ''k'', m_query = JStr ''abcxxxxxxx'',
                    m_score = 1351079888211149 / 4503599627370496\<rparr>)"
    by code_simp
  have h: "fst (findBestMatch default_sim_config [] (JStr ''ab'')
      [(''p'', JStr ''ac''), (''x'', JStr ''AB''), (''y'', JStr ''ab'')] (1 / 2))
     = Inr (Some \<lparr>m_key = ''x'', m_query = JStr ''AB'', m_score = 1\<rparr>)"
    by code_simp
  have e: "sim_enabled default_sim_config \<and> truthy (JStr ''ab'')"
    by (simp add: default_sim_config_def)
  from findBestMatch_first_strict_best [OF h] e
  obtain n where n: "normalize default_sim_config (JStr ''ab'') = Inr n"
    and m: "\<forall>m. Some \<lparr>m_key = ''x'', m_query = JStr ''AB'', m_score = 1\<rparr> = Some m \<longrightarrow>
                (\<exists>i < length (Object_entries [(''p'', JStr ''ac''), (''x'', JStr ''AB''), (''y'', JStr ''ab'')]).
                   Object_entries [(''p'', JStr ''ac''), (''x'', JStr ''AB''), (''y'', JStr ''ab'')] ! i
                     = (m_key m, m_query m)
                   \<and> scan_scores default_sim_config n
                        (Object_entries [(''p'', JStr ''ac''), (''x'', JStr ''AB''), (''y'', JStr ''ab'')]) [] ! i
                     = m_score m
                   \<and> 1 / 2 < m_score m
                   \<and> (\<forall>j < i. scan_scores default_sim_config n
                        (Object_entries [(''p'', JStr ''ac''), (''x'', JStr ''AB''), (''y'', JStr ''ab'')]) [] ! j
                        < m_score m)
                   \<and> (\<forall>j < length (Object_entries [(''p'', JStr ''ac''), (''x'', JStr ''AB''), (''y'', JStr ''ab'')]).
                         scan_scores default_sim_config n
                        (Object_entries [(''p'', JStr ''ac''), (''x'', JStr ''AB''), (''y'', JStr ''ab'')]) [] ! j
                         \<le> m_score m))"
    by blast
  from m obtain i where
    "i < length (Object_entries [(''p'', JStr ''ac''), (''x'', JStr ''AB''), (''y'', JStr ''ab'')])"
    "Object_entries [(''p'', JStr ''ac''), (''x'', JStr ''AB''), (''y'', JStr ''ab'')] ! i
       = (''x'', JStr ''AB'')"
    "scan_scores default_sim_config n
       (Object_entries [(''p'', JStr ''ac''), (''x'', JStr ''AB''), (''y'', JStr ''ab'')]) [] ! i = 1"
    by fastforce
  with h n have "fst (findBestMatch default_sim_config [] (JStr ''ab'')
      [(''p'', JStr ''ac''), (''x'', JStr ''AB''), (''y'', JStr ''ab'')] (1 / 2))
     = Inr (Some \<lparr>m_key = ''x'', m_query = JStr ''AB'', m_score = 1\<rparr>)
   \<and> (\<exists>n i. normalize default_sim_config (JStr ''ab'') = Inr n
        \<and> i < length (Object_entries [(''p'', JStr ''ac''), (''x'', JStr ''AB''), (''y'', JStr ''ab'')])
        \<and> Object_entries [(''p'', JStr ''ac''), (''x'', JStr ''AB''), (''y'', JStr ''ab'')] ! i
            = (''x'', JStr ''AB'')
        \<and> scan_scores default_sim_config n
              (Object_entries [(''p'', JStr ''ac''), (''x'', JStr ''AB''), (''y'', JStr ''ab'')]) [] ! i = 1)"
    by blast
  with h0 show ?thesis by (elim conjE) (intro conjI; assumption)
qed

section \<open>Similarity matcher: the memo returns the plain score\<close>

lemma levenshtein_le_max: "levenshtein a b \<le> max (length a) (length b)"
  by (simp add: levenshtein_def lev_d_le_max)

lemma levenshtein_sym: "levenshtein a b = levenshtein b a"
  unfolding levenshtein_def by (rule lev_d_sym)

lemma levenshtein_same: "levenshtein a a = 0"
  by (simp add: levenshtein_def lev_d_same)

lemma levenshtein_Nil: "levenshtein [] b = length b" "levenshtein a [] = length a"
  by (simp_all add: levenshtein_def lev_d_zero_right)

lemma levenshteinSim_sym: "levenshteinSim a b = levenshteinSim b a"
  by (simp add: levenshteinSim_eq levenshtein_sym [of a b] max.commute)

lemma ratio_range:
  fixes d m :: nat
  assumes "d \<le> m"
  shows "0 \<le> (of_nat d :: rat) / of_nat m \<and> (of_nat d :: rat) / of_nat m \<le> 1"
  using assms by (cases "m = 0") (simp_all add: divide_le_eq_1)

lemma levenshteinSim_range: "0 \<le> levenshteinSim a b \<and> levenshteinSim a b \<le> 1"
proof -
  let ?q = "js_div (of_nat (levenshtein a b)) (of_nat (max (length a) (length b)))"
  have "0 \<le> ?q \<and> ?q \<le> 1"
    unfolding js_div_def using ratio_range [OF levenshtein_le_max [of a b]]
    by (intro round_double_unit) simp_all
  then have "0 \<le> 1 - ?q \<and> 1 - ?q \<le> 1" by simp
  then have "0 \<le> round_double (1 - ?q) \<and> round_double (1 - ?q) \<le> 1"
    by (intro round_double_unit) simp_all
  then show ?thesis unfolding levenshteinSim_eq js_sub_def .
qed

lemma plain_score_formula:
  assumes "a \<noteq> [] \<or> b \<noteq> []"
  shows "plain_score a b =
     js_sub 1 (js_div (of_nat (levenshtein a b)) (of_nat (max (length a) (length b))))"
proof (cases "a = b")
  case True
  with assms have "a \<noteq> []" by simp
  then have "js_div (of_nat (levenshtein a a)) (of_nat (max (length a) (length a))) = 0"
    by (simp add: levenshtein_same js_div_def round_double_0)
  then show ?thesis using True by (simp add: plain_score_def js_sub_def round_double_1)
next
  case False
  show ?thesis
  proof (cases "a = [] \<or> b = []")
    case True
    define n where "n = max (length a) (length b)"
    from True assms False have l: "levenshtein a b = n" and n: "n \<noteq> 0"
      by (auto simp: levenshtein_Nil n_def)
    from n have "(of_nat n :: rat) / of_nat n = 1" by simp
    then have "js_div (of_nat (levenshtein a b)) (of_nat n) = 1"
      by (simp only: l js_div_def round_double_1)
    then have "js_div (of_nat (levenshtein a b)) (of_nat (max (length a) (length b))) = 1"
      by (simp only: n_def)
    then show ?thesis
      using True False by (simp add: plain_score_def js_sub_def round_double_0)
  next
    case False
    with \<open>a \<noteq> b\<close> show ?thesis by (simp add: plain_score_def levenshteinSim_eq)
  qed
qed

lemma plain_score_range: "0 \<le> plain_score a b \<and> plain_score a b \<le> 1"
  using levenshteinSim_range [of a b] by (simp add: plain_score_def)

lemma bar_free_append_bars:
  assumes "bar_free x" "bar_free x'" "x @ ''||'' @ y = x' @ ''||'' @ y'"
  shows "x = x' \<and> y = y'"
proof -
  have t: "takeWhile (\<lambda>c. c \<noteq> CHR ''|'') (z @ ''||'' @ w) = z" if "bar_free z" for z w
    using that by (induction z) (auto simp: bar_free_def)
  have "x = takeWhile (\<lambda>c. c \<noteq> CHR ''|'') (x @ ''||'' @ y)" using t [OF assms(1)] by simp
  also have "\<dots> = takeWhile (\<lambda>c. c \<noteq> CHR ''|'') (x' @ ''||'' @ y')" by (simp only: assms(3))
  also have "\<dots> = x'" using t [OF assms(2)] by simp
  finally have "x = x'" .
  with assms(3) show ?thesis by simp
qed

lemma cacheKey_inj:
  assumes "bar_free a" "bar_free b" "bar_free a'" "bar_free b'"
    and "cacheKey a b = cacheKey a' b'"
  shows "(a = a' \<and> b = b') \<or> (a = b' \<and> b = a')"
  using assms(5) bar_free_append_bars [of a a' b b'] bar_free_append_bars [of a b' b a']
    bar_free_append_bars [of b a' a b'] bar_free_append_bars [of b b' a a'] assms(1-4)
  by (auto simp: cacheKey_def split: if_splits)

lemma memo_ok_lookup:
  assumes "memo_ok c" "bar_free a" "bar_free b" "cacheKey a b \<in> fst ` set c"
  shows "the (map_of c (cacheKey a b)) = levenshteinSim a b"
proof -
  from assms(4) obtain s where s: "map_of c (cacheKey a b) = Some s"
    by (metis domD dom_map_of_conv_image_fst)
  then have "(cacheKey a b, s) \<in> set c" by (rule map_of_SomeD)
  with assms(1) obtain a' b' where ab: "bar_free a'" "bar_free b'"
      "cacheKey a b = cacheKey a' b'" "s = levenshteinSim a' b'"
    unfolding memo_ok_def by force
  from cacheKey_inj [OF assms(2,3) ab(1,2) ab(3)] ab(4) have "s = levenshteinSim a b"
    using levenshteinSim_sym by auto
  with s show ?thesis by simp
qed

lemma set_update_subset: "set (AList.update k v c) \<subseteq> insert (k, v) (set c)"
  by (induction c) auto

lemma set_evict_first_subset: "set (evict_first c) \<subseteq> set c"
  by (auto simp: evict_first_def AList.delete_eq split: list.splits)

lemma memo_ok_insert:
  assumes "memo_ok c" "bar_free a" "bar_free b"
  shows "memo_ok (AList.update (cacheKey a b) (levenshteinSim a b)
            (if int (length c) > n then evict_first c else c))"
  unfolding memo_ok_def
proof
  fix p
  assume "p \<in> set (AList.update (cacheKey a b) (levenshteinSim a b)
            (if int (length c) > n then evict_first c else c))"
  then have "p = (cacheKey a b, levenshteinSim a b) \<or> p \<in> set c"
    using set_update_subset [of "cacheKey a b" "levenshteinSim a b"]
      set_evict_first_subset [of c] by (fastforce split: if_splits)
  then show "\<exists>a b. bar_free a \<and> bar_free b \<and> fst p = cacheKey a b \<and> snd p = levenshteinSim a b"
  proof
    assume "p = (cacheKey a b, levenshteinSim a b)"
    with assms(2,3) show ?thesis by auto
  next
    assume "p \<in> set c"
    with assms(1) show ?thesis unfolding memo_ok_def by blast
  qed
qed

lemma calculate_plain:
  assumes "memo_ok c" "bar_free a" "bar_free b"
  shows "fst (calculate cfg c a b) = plain_score a b \<and> memo_ok (snd (calculate cfg c a b))"
proof (cases "a = b \<or> a = [] \<or> b = []")
  case True
  then show ?thesis using assms(1) by (auto simp: calculate_def plain_score_def)
next
  case False
  show ?thesis
  proof (cases "useCache cfg \<and> cacheKey a b \<in> fst ` set c")
    case True
    then show ?thesis
      using False assms memo_ok_lookup [OF assms(1-3)]
      by (simp add: calculate_def plain_score_def Let_def)
  next
    case False
    note nc = this
    show ?thesis
    proof (cases "useCache cfg")
      case True
      then show ?thesis
        using \<open>\<not> (a = b \<or> a = [] \<or> b = [])\<close> nc memo_ok_insert [OF assms, of "cacheSize cfg"]
        by (simp add: calculate_def plain_score_def Let_def)
    next
      case False
      then show ?thesis
        using \<open>\<not> (a = b \<or> a = [] \<or> b = [])\<close> assms(1)
        by (simp add: calculate_def plain_score_def Let_def)
    qed
  qed
qed

lemma calculate_plain_no_memo:
  assumes "\<not> useCache cfg" "memo_ok c"
  shows "fst (calculate cfg c a b) = plain_score a b \<and> memo_ok (snd (calculate cfg c a b))"
  using assms by (simp add: calculate_def plain_score_def Let_def)

lemma collapse_ws_set: "set (collapse_ws s) \<subseteq> insert (CHR '' '') (set s)"
proof (induction s rule: collapse_ws.induct)
  case 1
  then show ?case by simp
next
  case (2 c cs)
  have "set (dropWhile is_space cs) \<subseteq> set cs" by (rule set_dropWhileD [THEN subsetI]) 
  with 2 show ?case by (auto split: if_splits)
qed

lemma trim_set: "set (trim s) \<subseteq> set s"
proof -
  have "set (dropWhile is_space (rev (dropWhile is_space s))) \<subseteq> set (rev (dropWhile is_space s))"
    by (rule subsetI) (rule set_dropWhileD)
  moreover have "set (dropWhile is_space s) \<subseteq> set s"
    by (rule subsetI) (rule set_dropWhileD)
  ultimately show ?thesis by (auto simp: trim_def)
qed

lemma bar_free_normalize_str:
  assumes "normalizeText cfg"
  shows "bar_free (normalize_str cfg s)"
proof -
  let ?t = "if ignoreCase cfg then toLowerCase s else s"
  have nb: "\<not> is_word (CHR ''|'') \<and> \<not> is_space (CHR ''|'')"
    by (simp add: is_word_def is_space_def)
  have "set (trim (collapse_ws (filter (\<lambda>c. is_word c \<or> is_space c) ?t)))
      \<subseteq> insert (CHR '' '') (set (filter (\<lambda>c. is_word c \<or> is_space c) ?t))"
    using trim_set collapse_ws_set by blast
  then have "CHR ''|'' \<notin> set (trim (collapse_ws (filter (\<lambda>c. is_word c \<or> is_space c) ?t)))"
    using nb by auto
  then show ?thesis using assms by (simp add: bar_free_def normalize_str_def Let_def)
qed


section \<open>Similarity matcher: the size of the memo\<close>

lemma update_fresh: "k \<notin> fst ` set c \<Longrightarrow> AList.update k v c = c @ [(k, v)]"
  by (induction c) auto

lemma evict_first_distinct: "distinct (map fst c) \<Longrightarrow> evict_first c = tl c"
  by (cases c) (force simp: evict_first_def AList.delete_eq intro!: filter_True)+

lemma calculate_insert:
  assumes "useCache cfg" "a \<noteq> b" "a \<noteq> []" "b \<noteq> []" "cacheKey a b \<notin> fst ` set c"
    and "distinct (map fst c)"
  shows "snd (calculate cfg c a b) =
           (if int (length c) > cacheSize cfg then tl c else c) @ [(cacheKey a b, levenshteinSim a b)]"
proof -
  have "cacheKey a b \<notin> fst ` set (tl c)"
    using assms(5) by (cases c) auto
  then show ?thesis
    using assms by (simp add: calculate_def Let_def evict_first_distinct update_fresh)
qed

lemma calculate_keeps:
  assumes "\<not> useCache cfg \<or> a = b \<or> a = [] \<or> b = [] \<or> cacheKey a b \<in> fst ` set c"
  shows "snd (calculate cfg c a b) = c"
  using assms by (auto simp: calculate_def Let_def)

lemma memo_size_bound:
  assumes "distinct (map fst c)" and "0 \<le> cacheSize cfg"
    and "int (length c) \<le> cacheSize cfg + 1"
  shows "int (length (snd (calculate cfg c a b))) \<le> cacheSize cfg + 1
    \<and> distinct (map fst (snd (calculate cfg c a b)))"
proof (cases "useCache cfg \<and> a \<noteq> b \<and> a \<noteq> [] \<and> b \<noteq> [] \<and> cacheKey a b \<notin> fst ` set c")
  case False
  then have "snd (calculate cfg c a b) = c" by (intro calculate_keeps) blast
  with assms show ?thesis by simp
next
  case True
  then have eq: "snd (calculate cfg c a b) =
           (if int (length c) > cacheSize cfg then tl c else c) @ [(cacheKey a b, levenshteinSim a b)]"
    using calculate_insert [of cfg a b c] assms(1) by blast
  have k: "cacheKey a b \<notin> fst ` set (tl c)" using True by (cases c) auto
  have d: "distinct (map fst (tl c))" using assms(1) by (cases c) auto
  show ?thesis
  proof (cases "int (length c) > cacheSize cfg")
    case True
    then have "c \<noteq> []" using assms(2) by auto
    then have "length (tl c) + 1 = length c" by (cases c) auto
    with True eq assms(3) k d show ?thesis by auto
  next
    case False
    with eq assms(1) \<open>useCache cfg \<and> a \<noteq> b \<and> a \<noteq> [] \<and> b \<noteq> [] \<and> cacheKey a b \<notin> fst ` set c\<close>
    show ?thesis by auto
  qed
qed

text \<open>
  Claim C9 asks for at most \<open>cacheSize\<close> entries in the memo. \<^verbatim>\<open>_calculate\<close> evicts
  only when \<^verbatim>\<open>size > cacheSize\<close>, tested before the insertion: a memo that holds exactly
  \<open>cacheSize\<close> entries grows by one (\<open>calculate_insert\<close>), and \<open>cacheSize + 1\<close> is
  the bound the code keeps (\<open>memo_size_bound\<close>). With a capacity of 2, three different
  pairs leave three entries.
\<close>

theorem memo_exceeds_capacity:
  "cacheSize (default_sim_config\<lparr>cacheSize := 2\<rparr>) = 2
   \<and> length (snd (calculate (default_sim_config\<lparr>cacheSize := 2\<rparr>)
        (snd (calculate (default_sim_config\<lparr>cacheSize := 2\<rparr>)
          (snd (calculate (default_sim_config\<lparr>cacheSize := 2\<rparr>) [] ''a'' ''b''))
          ''a'' ''c''))
        ''a'' ''d'')) = 3"
  by code_simp

section \<open>Similarity matcher: the score\<close>

text \<open>
  Claim C7 (as amended): with text normalisation on or the memo off, and a memo filled
  by \<^verbatim>\<open>_calculate\<close>, the score of two strings, taken on their normalised forms \<open>a\<close> and
  \<open>b\<close>, is 1 when they are identical (also when both are empty), 0 when exactly one of
  them is empty, is the double-precision value of
  \<^verbatim>\<open>1 - levenshtein(a,b) / max(len(a), len(b))\<close> (the division rounded, then the subtraction
  rounded) whenever one of them is not empty, and lies between 0 and 1; the memo stays well
  filled. And \<^verbatim>\<open>findBestMatch("Hello World!", {a: "hello world", b: "goodbye"}, 0.5)\<close>
  returns key \<^verbatim>\<open>a\<close> with score 1.
\<close>

theorem similarity_score:
  assumes "normalizeText cfg \<or> \<not> useCache cfg" and "memo_ok c"
  shows "(let a = normalize_str cfg s; b = normalize_str cfg t; r = fst (calculate cfg c a b)
          in (a = b \<longrightarrow> r = 1)
           \<and> (a \<noteq> b \<and> (a = [] \<or> b = []) \<longrightarrow> r = 0)
           \<and> (a \<noteq> [] \<or> b \<noteq> [] \<longrightarrow>
                r = js_sub 1 (js_div (of_nat (levenshtein a b)) (of_nat (max (length a) (length b)))))
           \<and> 0 \<le> r \<and> r \<le> 1
           \<and> memo_ok (snd (calculate cfg c a b)))
    \<and> (memo_ok c' \<longrightarrow>
         fst (findBestMatch default_sim_config c' (JStr ''Hello World!'')
               [(''a'', JStr ''hello world''), (''b'', JStr ''goodbye'')] (5 / 10))
           = Inr (Some \<lparr>m_key = ''a'', m_query = JStr ''hello world'', m_score = 1\<rparr>))"
proof -
  define a where "a = normalize_str cfg s"
  define b where "b = normalize_str cfg t"
  have cp: "fst (calculate cfg c a b) = plain_score a b \<and> memo_ok (snd (calculate cfg c a b))"
  proof (cases "normalizeText cfg")
    case True
    then have "bar_free a" "bar_free b"
      by (simp_all add: a_def b_def bar_free_normalize_str)
    then show ?thesis by (rule calculate_plain [OF assms(2)])
  next
    case False
    with assms(1) have "\<not> useCache cfg" by simp
    then show ?thesis using assms(2) by (rule calculate_plain_no_memo)
  qed
  have r: "fst (calculate cfg c a b) = plain_score a b" using cp by simp
  have 1: "a = b \<longrightarrow> plain_score a b = 1" by (simp add: plain_score_def)
  have 2: "a \<noteq> b \<and> (a = [] \<or> b = []) \<longrightarrow> plain_score a b = 0" by (auto simp: plain_score_def)
  have 3: "a \<noteq> [] \<or> b \<noteq> [] \<longrightarrow>
      plain_score a b = js_sub 1 (js_div (of_nat (levenshtein a b)) (of_nat (max (length a) (length b))))"
    using plain_score_formula [of a b] by blast
  have first: "(let a = normalize_str cfg s; b = normalize_str cfg t; r = fst (calculate cfg c a b)
          in (a = b \<longrightarrow> r = 1)
           \<and> (a \<noteq> b \<and> (a = [] \<or> b = []) \<longrightarrow> r = 0)
           \<and> (a \<noteq> [] \<or> b \<noteq> [] \<longrightarrow>
                r = js_sub 1 (js_div (of_nat (levenshtein a b)) (of_nat (max (length a) (length b)))))
           \<and> 0 \<le> r \<and> r \<le> 1
           \<and> memo_ok (snd (calculate cfg c a b)))"
    unfolding Let_def a_def [symmetric] b_def [symmetric] r
    using 1 2 3 plain_score_range [of a b] cp by blast
  have second: "fst (findBestMatch default_sim_config c' (JStr ''Hello World!'')
               [(''a'', JStr ''hello world''), (''b'', JStr ''goodbye'')] (5 / 10))
           = Inr (Some \<lparr>m_key = ''a'', m_query = JStr ''hello world'', m_score = 1\<rparr>)"
    if ok: "memo_ok c'"
  proof -
    have n1: "normalize default_sim_config (JStr ''Hello World!'') = Inr ''hello world''"
      by code_simp
    have n2: "normalize default_sim_config (JStr ''hello world'') = Inr ''hello world''"
      by code_simp
    have n3: "normalize default_sim_config (JStr ''goodbye'') = Inr ''goodbye''"
      by code_simp
    have oe: "Object_entries [(''a'', JStr ''hello world''), (''b'', JStr ''goodbye'')]
        = [(''a'', JStr ''hello world''), (''b'', JStr ''goodbye'')]"
      by code_simp
    have c1: "calculate default_sim_config c' ''hello world'' ''hello world'' = (1, c')"
      by (simp add: calculate_def)
    have bf: "bar_free ''hello world''" "bar_free ''goodbye''"
      by (simp_all add: bar_free_def)
    have "plain_score ''hello world'' ''goodbye'' = 818836295885545 / 9007199254740992"
      by code_simp
    with calculate_plain [OF ok bf, of default_sim_config]
    obtain c'' where c2: "calculate default_sim_config c' ''hello world'' ''goodbye''
        = (818836295885545 / 9007199254740992, c'')"
      by (cases "calculate default_sim_config c' ''hello world'' ''goodbye''") simp
    show ?thesis
      by (simp add: findBestMatch_def n1 n2 n3 oe c1 c2) (simp add: default_sim_config_def)
  qed
  from first second show ?thesis by blast
qed

theorem similarity_score_witness:
  "fst (calculate default_sim_config [] (normalize_str default_sim_config ''Kitten!'')
         (normalize_str default_sim_config ''sitting''))
       = js_sub 1 (js_div 3 7)
   \<and> js_sub 1 (js_div 3 7) = 2573485501354569 / 4503599627370496
   \<and> levenshtein ''kitten'' ''sitting'' = 3
   \<and> fst (findBestMatch default_sim_config [] (JStr ''Hello World!'')
               [(''a'', JStr ''hello world''), (''b'', JStr ''goodbye'')] (5 / 10))
           = Inr (Some \<lparr>m_key = ''a'', m_query = JStr ''hello world'', m_score = 1\<rparr>)"
proof -
  have n: "normalizeText default_sim_config \<or> \<not> useCache default_sim_config"
    by (simp add: default_sim_config_def)
  have m: "memo_ok []" by (simp add: memo_ok_def)
  have k: "normalize_str default_sim_config ''Kitten!'' = ''kitten''"
    "normalize_str default_sim_config ''sitting'' = ''sitting''" by code_simp+
  have l: "levenshtein ''kitten'' ''sitting'' = 3" by code_simp
  have v: "js_sub 1 (js_div 3 7) = 2573485501354569 / 4503599627370496" by code_simp
  from similarity_score [OF n m, of "''Kitten!''" "''sitting''" "[]"] m l
  have "fst (calculate default_sim_config [] ''kitten'' ''sitting'') = js_sub 1 (js_div 3 7)"
    and "fst (findBestMatch default_sim_config [] (JStr ''Hello World!'')
               [(''a'', JStr ''hello world''), (''b'', JStr ''goodbye'')] (5 / 10))
           = Inr (Some \<lparr>m_key = ''a'', m_query = JStr ''hello world'', m_score = 1\<rparr>)"
    by (simp_all add: Let_def k)
  with v l show ?thesis by (simp only: k)
qed

text \<open>
  Claim C7 as stated fails in three ways. It gives 0 whenever either normalised string is
  empty: \<^verbatim>\<open>"!"\<close> and \<^verbatim>\<open>"?"\<close> both normalise to the empty string, and their score is 1,
  since the test \<^verbatim>\<open>a === b\<close> comes first. It equates the score with the exact quotient:
  for \<^verbatim>\<open>hello world\<close> and \<^verbatim>\<open>goodbye\<close> (distance 10, length 11) the score is the double
  0.09090909090909094, which is not \<open>1 - 10 / 11\<close>. And it holds for every configuration:
  with text normalisation off, the pairs (\<^verbatim>\<open>a||a\<close>, \<^verbatim>\<open>b\<close>) and (\<^verbatim>\<open>a\<close>, \<^verbatim>\<open>a||b\<close>) share
  the memo key \<^verbatim>\<open>a||a||b\<close>, so after the first pair (score 0) the second one is answered 0
  from the memo, where its distance 3 on length 4 gives 0.25.
\<close>

theorem both_empty_score_counterexample:
  "normalize_str default_sim_config ''!'' = []
   \<and> normalize_str default_sim_config ''?'' = []
   \<and> fst (calculate default_sim_config [] (normalize_str default_sim_config ''!'')
          (normalize_str default_sim_config ''?'')) = 1
   \<and> levenshtein ''hello world'' ''goodbye'' = 10
   \<and> fst (calculate default_sim_config [] (normalize_str default_sim_config ''hello world'')
          (normalize_str default_sim_config ''goodbye'')) = 818836295885545 / 9007199254740992
   \<and> (818836295885545 / 9007199254740992 :: rat) \<noteq> 1 - 10 / 11
   \<and> levenshtein ''a'' ''a||b'' = 3
   \<and> js_sub 1 (js_div 3 4) = 1 / 4
   \<and> fst (calculate (default_sim_config\<lparr>normalizeText := False\<rparr>)
          (snd (calculate (default_sim_config\<lparr>normalizeText := False\<rparr>) []
                  (normalize_str (default_sim_config\<lparr>normalizeText := False\<rparr>) ''a||a'')
                  (normalize_str (default_sim_config\<lparr>normalizeText := False\<rparr>) ''b'')))
          (normalize_str (default_sim_config\<lparr>normalizeText := False\<rparr>) ''a'')
          (normalize_str (default_sim_config\<lparr>normalizeText := False\<rparr>) ''a||b'')) = 0"
proof -
  have "lev_matrix ''hello world'' ''goodbye'' ! length ''hello world'' ! length ''goodbye'' = 10"
    by code_simp
  then have 1: "levenshtein ''hello world'' ''goodbye'' = 10"
    unfolding lev_matrix_distance .
  have 2: "levenshtein ''a'' ''a||b'' = 3" by code_simp
  have 3: "normalize_str default_sim_config ''!'' = []
   \<and> normalize_str default_sim_config ''?'' = []
   \<and> fst (calculate default_sim_config [] (normalize_str default_sim_config ''!'')
          (normalize_str default_sim_config ''?'')) = 1
   \<and> fst (calculate default_sim_config [] (normalize_str default_sim_config ''hello world'')
          (normalize_str default_sim_config ''goodbye'')) = 818836295885545 / 9007199254740992
   \<and> (818836295885545 / 9007199254740992 :: rat) \<noteq> 1 - 10 / 11
   \<and> js_sub 1 (js_div 3 4) = 1 / 4
   \<and> fst (calculate (default_sim_config\<lparr>normalizeText := False\<rparr>)
          (snd (calculate (default_sim_config\<lparr>normalizeText := False\<rparr>) []
                  (normalize_str (default_sim_config\<lparr>normalizeText := False\<rparr>) ''a||a'')
                  (normalize_str (default_sim_config\<lparr>normalizeText := False\<rparr>) ''b'')))
          (normalize_str (default_sim_config\<lparr>normalizeText := False\<rparr>) ''a'')
          (normalize_str (default_sim_config\<lparr>normalizeText := False\<rparr>) ''a||b'')) = 0"
    by code_simp
  from 1 2 3 show ?thesis by blast
qed

section \<open>Cache facade: reading by key\<close>

lemma query_of_entry: "query_of_item rt (entry_obj e) = Inr JUndefined"
  by (simp add: query_of_item_def entry_obj_def)

lemma store_get_live: "map_of s key = Some e \<Longrightarrow> \<not> expiresAt e < now \<Longrightarrow> store_get now key s = (Some e, s)"
  by (simp add: store_get_def)

lemma store_get_stale:
  "map_of s key = Some e \<Longrightarrow> expiresAt e < now \<Longrightarrow> store_get now key s = (None, AList.delete key s)"
  by (simp add: store_get_def)

lemma getByKey_live:
  assumes "map_of s key = Some e" "\<not> expiresAt e < now"
  shows "getByKey rt now key s = (Inr JUndefined, s)"
  using assms by (simp add: getByKey_def store_get_live item_val_def entry_obj_def)

lemma getByKey_stale:
  assumes "map_of s key = Some e" "expiresAt e < now"
  shows "getByKey rt now key s = (Inr JNull, AList.delete key s)"
  using assms by (simp add: getByKey_def store_get_stale item_val_def)

lemma getByKey_absent:
  assumes "map_of s key = None"
  shows "getByKey rt now key s = (Inr JNull, s)"
  using assms by (simp add: getByKey_def store_get_def item_val_def)

lemma compress_object: "\<exists>y. compress rt cfg (JObj kvs) = Inr y"
  by (simp add: compress_def)

lemma facade_set_with_key:
  assumes "enabled cfg" "opt_key opts = Some k" "k \<noteq> []"
  shows "\<exists>v. facade_set rt cfg clk query response opts st
           = (Inr True, st\<lparr>store := AList.update k
                \<lparr>value = v, createdAt = clk 1, expiresAt = clk 1 + ttl cfg\<rparr> (store st),
                stats := recordSet (stats st)\<rparr>)"
proof -
  obtain y where y: "compress rt (compression cfg) (make_payload query response (clk 0) k) = Inr y"
    using compress_object [of rt "compression cfg"] by (auto simp: make_payload_def)
  show ?thesis
    using assms y by (auto simp: facade_set_def resolve_key_def Let_def store_set_def)
qed

lemma facade_set_get_by_key:
  assumes "enabled cfg" "opt_key opts = Some k" "k \<noteq> []"
  shows "fst (facade_get rt cfg clk' query' opts
            (snd (facade_set rt cfg clk query response opts st)))
         = (if clk' 0 \<le> clk 1 + ttl cfg then Inr JUndefined else Inr JNull)"
proof -
  from facade_set_with_key [OF assms, of rt clk query response st] obtain v where
    s: "facade_set rt cfg clk query response opts st
           = (Inr True, st\<lparr>store := AList.update k
                \<lparr>value = v, createdAt = clk 1, expiresAt = clk 1 + ttl cfg\<rparr> (store st),
                stats := recordSet (stats st)\<rparr>)" by blast
  let ?e = "\<lparr>value = v, createdAt = clk 1, expiresAt = clk 1 + ttl cfg\<rparr>"
  have m: "map_of (AList.update k ?e (store st)) k = Some ?e"
    by (simp add: update_conv')
  show ?thesis
  proof (cases "clk' 0 \<le> clk 1 + ttl cfg")
    case True
    then have "getByKey rt (clk' 0) k (AList.update k ?e (store st))
        = (Inr JUndefined, AList.update k ?e (store st))"
      by (intro getByKey_live [OF m]) simp
    with True show ?thesis using assms by (simp add: s facade_get_def)
  next
    case False
    then have "getByKey rt (clk' 0) k (AList.update k ?e (store st))
        = (Inr JNull, AList.delete k (AList.update k ?e (store st)))"
      by (intro getByKey_stale [OF m]) simp
    with False show ?thesis using assms by (simp add: s facade_get_def)
  qed
qed

text \<open>
  Claim C1 asks that a \<^verbatim>\<open>get\<close> by key before the entry expires returns the stored
  response. \<^verbatim>\<open>_getByKey\<close> reads \<^verbatim>\<open>compressed\<close> and \<^verbatim>\<open>response\<close> from the object
  \<^verbatim>\<open>store.get\<close> returns, which is the entry \<^verbatim>\<open>{ value, createdAt, expiresAt }\<close> and
  not the payload in its \<^verbatim>\<open>value\<close>: the result is \<^verbatim>\<open>undefined\<close> for every live entry
  (\<open>facade_set_get_by_key\<close>), and \<^verbatim>\<open>null\<close> only after expiry. Here a response stored at time
  0 under the key \<^verbatim>\<open>k\<close> is read at time 1.
\<close>

theorem facade_get_by_key_loses_response:
  "fst (facade_get (sample_runtime []) default_cache_config (\<lambda>i. 1) (JStr ''q'')
          \<lparr>opt_key = Some ''k'', userId = JUndefined, model = JUndefined\<rparr>
          (snd (facade_set (sample_runtime []) default_cache_config (\<lambda>i. 0) (JStr ''q'') (JStr ''r'')
                  \<lparr>opt_key = Some ''k'', userId = JUndefined, model = JUndefined\<rparr> empty_state)))
     = Inr JUndefined"
  by code_simp

section \<open>Cache facade: the similarity lookup and stale entries\<close>

lemma build_pool_stale:
  assumes "distinct (map fst s)" and "set ks \<subseteq> fst ` set s"
    and "j < length ks" and "expiresAt (the (map_of s (ks ! j))) < clk (n + j)"
  shows "fst (build_pool rt clk n ks s q) = Inl TypeError"
  using assms(2-)
proof (induction ks arbitrary: n j q)
  case Nil
  then show ?case by simp
next
  case (Cons k ks)
  from Cons.prems(1) obtain e where e: "map_of s k = Some e"
    by (metis (no_types, opaque_lifting) domD dom_map_of_conv_image_fst insert_subset list.simps(15))
  show ?case
  proof (cases "expiresAt e < clk n")
    case True
    then show ?thesis
      by (simp add: store_get_stale [OF e] item_val_def query_of_item_def)
  next
    case False
    then have "j \<noteq> 0" using Cons.prems(3) e by (cases j) auto
    then obtain j' where j': "j = Suc j'" by (cases j) auto
    have "fst (build_pool rt clk (Suc n) ks s (AList.update k JUndefined q)) = Inl TypeError"
      using Cons.prems j' by (intro Cons.IH [of j']) auto
    then show ?thesis
      using False by (simp add: store_get_live [OF e] item_val_def query_of_entry)
  qed
qed

lemma build_pool_live:
  assumes "distinct (map fst s)" and "set ks \<subseteq> fst ` set s"
    and "\<forall>j < length ks. \<not> expiresAt (the (map_of s (ks ! j))) < clk (n + j)"
  shows "\<exists>pool. build_pool rt clk n ks s q = (Inr pool, s)"
  using assms(2-)
proof (induction ks arbitrary: n q)
  case Nil
  then show ?case by simp
next
  case (Cons k ks)
  from Cons.prems(1) obtain e where e: "map_of s k = Some e"
    by (metis (no_types, opaque_lifting) domD dom_map_of_conv_image_fst insert_subset list.simps(15))
  have live: "\<not> expiresAt e < clk n" using Cons.prems(2) e by force
  have "\<forall>j < length ks. \<not> expiresAt (the (map_of s (ks ! j))) < clk (Suc n + j)"
    using Cons.prems(2) by force
  then have "\<exists>pool. build_pool rt clk (Suc n) ks s (AList.update k JUndefined q) = (Inr pool, s)"
    using Cons.prems(1) by (intro Cons.IH) auto
  then show ?case
    using live by (simp add: store_get_live [OF e] item_val_def query_of_entry)
qed

lemma map_of_nth:
  assumes "distinct (map fst s)" "i < length s"
  shows "map_of s (fst (s ! i)) = Some (snd (s ! i))"
  using assms by (metis map_of_is_SomeI nth_mem prod.collapse)

text \<open>
  Claim C10: in a \<^verbatim>\<open>get\<close> without a key and with similarity on, if the entry of some key
  listed by \<^verbatim>\<open>getKeys()\<close> has expired at the reading at which the loop fetches it
  (\<open>clk i\<close> for the \<open>i\<close>-th key), \<^verbatim>\<open>store.get\<close> returns \<^verbatim>\<open>null\<close>, the loop reads
  \<^verbatim>\<open>item.compressed\<close> of it, and the call throws a TypeError.
\<close>

theorem facade_get_stale_entry_throws:
  assumes "enabled cfg" and "sim_enabled (similarity cfg)"
    and "opt_key opts = None \<or> opt_key opts = Some []"
    and "store_wf (store st)"
    and "i < length (store st)" and "expiresAt (snd (store st ! i)) < clk i"
  shows "fst (facade_get rt cfg clk query opts st) = Inl TypeError"
proof -
  let ?s = "store st"
  have d: "distinct (map fst ?s)" using assms(4) by (simp add: store_wf_def)
  have "expiresAt (the (map_of ?s (map fst ?s ! i))) < clk (0 + i)"
    using assms(5,6) map_of_nth [OF d assms(5)] by simp
  then have "fst (build_pool rt clk 0 (map fst ?s) ?s []) = Inl TypeError"
    using assms(5) by (intro build_pool_stale [OF d, of _ i]) auto
  then obtain s' where "build_pool rt clk 0 (map fst ?s) ?s [] = (Inl TypeError, s')"
    by (cases "build_pool rt clk 0 (map fst ?s) ?s []") auto
  then have "fst (findSimilar rt cfg clk query st) = Inl TypeError"
    by (simp add: findSimilar_def store_getKeys_def)
  then show ?thesis
    using assms(1-3) by (auto simp: facade_get_def split: prod.splits sum.splits)
qed

theorem facade_get_stale_entry_throws_witness:
  "fst (facade_get (sample_runtime []) default_cache_config (\<lambda>i. if i = 0 then 4 else 6)
          (JStr ''hello'') no_options
          \<lparr>store = [(''a'', \<lparr>value = JNull, createdAt = 0, expiresAt = 9\<rparr>),
                    (''b'', \<lparr>value = JNull, createdAt = 0, expiresAt = 5\<rparr>)],
           memo = [], stats = initial_stats\<rparr>) = Inl TypeError"
  using facade_get_stale_entry_throws [of default_cache_config no_options
      "\<lparr>store = [(''a'', \<lparr>value = JNull, createdAt = 0, expiresAt = 9\<rparr>),
                    (''b'', \<lparr>value = JNull, createdAt = 0, expiresAt = 5\<rparr>)],
           memo = [], stats = initial_stats\<rparr>" 1 "\<lambda>i. if i = 0 then 4 else 6"
      "sample_runtime []" "JStr ''hello''"]
  by (simp add: default_cache_config_def default_sim_config_def no_options_def store_wf_def)

section \<open>Cache facade: empty and null queries\<close>

lemma generateKey_string: "generateKey (JStr q) opts = Inr (''cache:'' @ md5_hex (key_base q opts))"
  by (simp add: generateKey_def)

lemma generateKey_not_string: "(\<forall>q. query \<noteq> JStr q) \<Longrightarrow> generateKey query opts = Inl TypeError"
  by (cases query) (simp_all add: generateKey_def)

lemma facade_set_no_key:
  assumes "enabled cfg" "opt_key opts = None \<or> opt_key opts = Some []"
  shows "\<exists>v. facade_set rt cfg clk (JStr q) response opts st
           = (Inr True, st\<lparr>store := AList.update (''cache:'' @ md5_hex (key_base q opts))
                \<lparr>value = v, createdAt = clk 1, expiresAt = clk 1 + ttl cfg\<rparr> (store st),
                stats := recordSet (stats st)\<rparr>)"
proof -
  let ?k = "''cache:'' @ md5_hex (key_base q opts)"
  have r: "resolve_key (JStr q) opts = Inr ?k"
    using assms(2) by (auto simp: resolve_key_def generateKey_string)
  obtain y where y: "compress rt (compression cfg) (make_payload (JStr q) response (clk 0) ?k) = Inr y"
    using compress_object [of rt "compression cfg"] by (auto simp: make_payload_def)
  show ?thesis
    unfolding facade_set_def r using assms(1) y
    by (auto simp: Let_def store_set_def)
qed

lemma facade_set_not_string:
  assumes "enabled cfg" "opt_key opts = None \<or> opt_key opts = Some []" "\<forall>q. query \<noteq> JStr q"
  shows "facade_set rt cfg clk query response opts st = (Inl TypeError, st)"
proof -
  have "resolve_key query opts = Inl TypeError"
    using assms(2,3) by (auto simp: resolve_key_def generateKey_not_string)
  then show ?thesis using assms(1) by (simp add: facade_set_def)
qed

lemma findBestMatch_falsy: "\<not> truthy query \<Longrightarrow> findBestMatch cfg c query pool thr = (Inr None, c)"
  by (simp add: findBestMatch_def)

lemma facade_get_falsy_query:
  assumes "enabled cfg" "opt_key opts = None \<or> opt_key opts = Some []" "\<not> truthy q"
    and "sim_enabled (similarity cfg) \<longrightarrow>
           store_wf (store st) \<and> (\<forall>i < length (store st). clk i \<le> expiresAt (snd (store st ! i)))"
  shows "facade_get rt cfg clk q opts st = (Inr JNull, st\<lparr>stats := recordGet False (stats st)\<rparr>)"
proof (cases "sim_enabled (similarity cfg)")
  case False
  then show ?thesis using assms(1,2) by (auto simp: facade_get_def)
next
  case True
  let ?s = "store st"
  from True assms(4) have d: "distinct (map fst ?s)"
    and live: "\<forall>i < length ?s. clk i \<le> expiresAt (snd (?s ! i))"
    by (simp_all add: store_wf_def)
  have "\<forall>j < length (map fst ?s). \<not> expiresAt (the (map_of ?s (map fst ?s ! j))) < clk (0 + j)"
    using live map_of_nth [OF d] by (simp add: not_less)
  then obtain pool where p: "build_pool rt clk 0 (map fst ?s) ?s [] = (Inr pool, ?s)"
    using build_pool_live [OF d, of "map fst ?s" clk 0 rt "[]"] by auto
  have "findSimilar rt cfg clk q st = (Inr JNull, st)"
    using assms(3) by (simp add: findSimilar_def store_getKeys_def p findBestMatch_falsy)
  then show ?thesis using True assms(1,2) by (auto simp: facade_get_def)
qed

text \<open>
  Claim C4 (as amended): without an explicit key, a \<^verbatim>\<open>get\<close> with an empty or null query
  returns \<^verbatim>\<open>null\<close> without throwing, recording a miss and leaving store and memo as they
  were, provided similarity is off or no stored entry has expired when the pool loop
  fetches it; a \<^verbatim>\<open>set\<close> with the empty string as query does not throw either, but it is no
  no-op: it stores the payload under the key derived from the empty query and returns
  \<^verbatim>\<open>true\<close>. Only a disabled cache answers \<^verbatim>\<open>false\<close> and \<^verbatim>\<open>null\<close> and does nothing.
\<close>

theorem facade_empty_query:
  assumes "opt_key opts = None \<or> opt_key opts = Some []"
  shows "(\<not> enabled cfg \<longrightarrow>
            facade_set rt cfg clk q response opts st = (Inr False, st)
            \<and> facade_get rt cfg clk q opts st = (Inr JNull, st))
    \<and> (enabled cfg \<and> (q = JNull \<or> q = JStr [])
         \<and> (sim_enabled (similarity cfg) \<longrightarrow>
               store_wf (store st)
               \<and> (\<forall>i < length (store st). clk i \<le> expiresAt (snd (store st ! i)))) \<longrightarrow>
            facade_get rt cfg clk q opts st
              = (Inr JNull, st\<lparr>stats := recordGet False (stats st)\<rparr>))
    \<and> (enabled cfg \<longrightarrow>
          (\<exists>v. facade_set rt cfg clk (JStr []) response opts st
             = (Inr True, st\<lparr>store := AList.update (''cache:'' @ md5_hex (key_base [] opts))
                  \<lparr>value = v, createdAt = clk 1, expiresAt = clk 1 + ttl cfg\<rparr> (store st),
                  stats := recordSet (stats st)\<rparr>)))"
proof (intro conjI impI)
  assume "\<not> enabled cfg"
  then show "facade_set rt cfg clk q response opts st = (Inr False, st)"
    and "facade_get rt cfg clk q opts st = (Inr JNull, st)"
    by (simp_all add: facade_set_def facade_get_def)
next
  assume a: "enabled cfg \<and> (q = JNull \<or> q = JStr [])
         \<and> (sim_enabled (similarity cfg) \<longrightarrow>
               store_wf (store st)
               \<and> (\<forall>i < length (store st). clk i \<le> expiresAt (snd (store st ! i))))"
  then have "\<not> truthy q" by auto
  with a assms show "facade_get rt cfg clk q opts st
              = (Inr JNull, st\<lparr>stats := recordGet False (stats st)\<rparr>)"
    by (intro facade_get_falsy_query) auto
next
  assume "enabled cfg"
  then show "\<exists>v. facade_set rt cfg clk (JStr []) response opts st
             = (Inr True, st\<lparr>store := AList.update (''cache:'' @ md5_hex (key_base [] opts))
                  \<lparr>value = v, createdAt = clk 1, expiresAt = clk 1 + ttl cfg\<rparr> (store st),
                  stats := recordSet (stats st)\<rparr>)"
    using assms by (rule facade_set_no_key)
qed

theorem facade_empty_query_witness:
  "facade_get (sample_runtime []) default_cache_config (\<lambda>i. 7) (JStr []) no_options
      \<lparr>store = [(''a'', \<lparr>value = JNull, createdAt = 0, expiresAt = 9\<rparr>)], memo = [],
       stats = initial_stats\<rparr>
     = (Inr JNull,
        \<lparr>store = [(''a'', \<lparr>value = JNull, createdAt = 0, expiresAt = 9\<rparr>)], memo = [],
         stats = recordGet False initial_stats\<rparr>)
   \<and> fst (facade_set (sample_runtime []) default_cache_config (\<lambda>i. 7) (JStr []) (JStr ''r'') no_options
          empty_state) = Inr True"
  using facade_empty_query [of no_options default_cache_config "sample_runtime []" "\<lambda>i. 7" "JStr []"
      "JStr ''r''" "\<lparr>store = [(''a'', \<lparr>value = JNull, createdAt = 0, expiresAt = 9\<rparr>)], memo = [],
       stats = initial_stats\<rparr>"]
    facade_empty_query [of no_options default_cache_config "sample_runtime []" "\<lambda>i. 7" "JStr []"
      "JStr ''r''" empty_state]
  by (auto simp: default_cache_config_def default_sim_config_def no_options_def store_wf_def)

text \<open>
  Claim C4 as stated: \<^verbatim>\<open>set\<close> with an empty or null query returns \<^verbatim>\<open>false\<close> and does not
  throw. With the empty string it returns \<^verbatim>\<open>true\<close> and the store holds an entry; with
  \<^verbatim>\<open>null\<close> the call \<^verbatim>\<open>query.toLowerCase()\<close> of \<^verbatim>\<open>_generateKey\<close> throws.
\<close>

theorem facade_set_empty_query_counterexample:
  "fst (facade_set (sample_runtime []) default_cache_config (\<lambda>i. 0) (JStr []) (JStr ''r'')
          no_options empty_state) = Inr True
   \<and> store (snd (facade_set (sample_runtime []) default_cache_config (\<lambda>i. 0) (JStr [])
          (JStr ''r'') no_options empty_state)) \<noteq> []
   \<and> fst (facade_set (sample_runtime []) default_cache_config (\<lambda>i. 0) JNull (JStr ''r'')
          no_options empty_state) = Inl TypeError"
proof -
  have e: "enabled default_cache_config" "opt_key no_options = None \<or> opt_key no_options = Some []"
    by (simp_all add: default_cache_config_def no_options_def)
  from facade_set_no_key [OF e, of "sample_runtime []" "\<lambda>i. 0" "[]" "JStr ''r''" empty_state]
  have "fst (facade_set (sample_runtime []) default_cache_config (\<lambda>i. 0) (JStr []) (JStr ''r'')
          no_options empty_state) = Inr True
   \<and> store (snd (facade_set (sample_runtime []) default_cache_config (\<lambda>i. 0) (JStr [])
          (JStr ''r'') no_options empty_state)) \<noteq> []"
    by auto
  moreover have "fst (facade_set (sample_runtime []) default_cache_config (\<lambda>i. 0) JNull (JStr ''r'')
          no_options empty_state) = Inl TypeError"
    using facade_set_not_string [OF e, of JNull] by simp
  ultimately show ?thesis by blast
qed

section \<open>Cache facade: key derivation\<close>

lemma length_concat_pairs:
  "(\<And>x. length (f x) = 2) \<Longrightarrow> length (concat (map f xs)) = 2 * length xs"
  by (induction xs) simp_all

lemma length_hex_word_le: "length (hex_word_le w) = 8"
  unfolding hex_word_le_def
  by (subst length_concat_pairs) (simp_all add: hex_byte_def)

lemma length_md5_hex: "length (md5_hex s) = 32"
  by (simp add: md5_hex_def length_hex_word_le split: prod.splits)

lemma hex_digit_table: "list_all (\<lambda>n. hex_digit n \<in> hex_digits) [0..<16]"
  unfolding hex_digits_def by code_simp

lemma hex_digit_range:
  assumes "n < 16"
  shows "hex_digit n \<in> hex_digits"
proof -
  from assms have "n \<in> set [0..<16]" by simp
  with hex_digit_table show ?thesis unfolding list_all_iff by blast
qed

lemma set_concat_map_subset:
  "(\<And>x. set (f x) \<subseteq> A) \<Longrightarrow> set (concat (map f xs)) \<subseteq> A"
  by (induction xs) auto

lemma hex_byte_digits: "set (hex_byte n) \<subseteq> hex_digits"
  using hex_digit_range [of "n div 16 mod 16"] hex_digit_range [of "n mod 16"]
  by (simp add: hex_byte_def)

lemma hex_word_le_digits: "set (hex_word_le w) \<subseteq> hex_digits"
  unfolding hex_word_le_def by (rule set_concat_map_subset) (rule hex_byte_digits)

lemma md5_hex_digits: "set (md5_hex s) \<subseteq> hex_digits"
proof -
  obtain A B C D where m: "md5 (utf8_encode s) = (A, B, C, D)"
    by (cases "md5 (utf8_encode s)") auto
  have "set (hex_word_le A @ hex_word_le B @ hex_word_le C @ hex_word_le D) \<subseteq> hex_digits"
    using hex_word_le_digits [of A] hex_word_le_digits [of B] hex_word_le_digits [of C]
      hex_word_le_digits [of D] by simp
  then show ?thesis by (simp add: md5_hex_def m)
qed

text \<open>
  Claim C5 (as amended): key derivation is deterministic and depends only on the string
  \<^verbatim>\<open>normalized query|userId or ''|model or ''\<close>: inputs with the same lower-cased, trimmed
  query and the same disambiguators (a falsy one counting as the empty string) get the
  same key; the key is \<^verbatim>\<open>cache:\<close> followed by the 32 hexadecimal digits of the 128-bit MD5
  digest of that string; two inputs get the same key exactly when the digests of their
  strings coincide, in particular whenever the strings coincide. No injectivity follows.
\<close>

theorem generateKey_deterministic:
  "(trim (toLowerCase q1) = trim (toLowerCase q2)
      \<and> or_empty (userId o1) = or_empty (userId o2)
      \<and> or_empty (model o1) = or_empty (model o2)
     \<longrightarrow> generateKey (JStr q1) o1 = generateKey (JStr q2) o2)
   \<and> (\<exists>h. generateKey (JStr q1) o1 = Inr (''cache:'' @ h)
          \<and> h = md5_hex (trim (toLowerCase q1) @ ''|'' @ or_empty (userId o1) @ ''|''
                           @ or_empty (model o1))
          \<and> length h = 32 \<and> set h \<subseteq> hex_digits)
   \<and> (key_base q1 o1 = key_base q2 o2 \<longrightarrow> generateKey (JStr q1) o1 = generateKey (JStr q2) o2)
   \<and> (generateKey (JStr q1) o1 = generateKey (JStr q2) o2
        \<longleftrightarrow> md5_hex (key_base q1 o1) = md5_hex (key_base q2 o2))"
proof -
  have 1: "trim (toLowerCase q1) = trim (toLowerCase q2)
      \<and> or_empty (userId o1) = or_empty (userId o2)
      \<and> or_empty (model o1) = or_empty (model o2)
     \<longrightarrow> generateKey (JStr q1) o1 = generateKey (JStr q2) o2"
    by (simp add: generateKey_string key_base_def)
  have 2: "\<exists>h. generateKey (JStr q1) o1 = Inr (''cache:'' @ h)
          \<and> h = md5_hex (trim (toLowerCase q1) @ ''|'' @ or_empty (userId o1) @ ''|''
                           @ or_empty (model o1))
          \<and> length h = 32 \<and> set h \<subseteq> hex_digits"
    using length_md5_hex md5_hex_digits
    by (intro exI [of _ "md5_hex (key_base q1 o1)"] conjI)
       (simp_all only: generateKey_string key_base_def)
  have 3: "key_base q1 o1 = key_base q2 o2 \<longrightarrow> generateKey (JStr q1) o1 = generateKey (JStr q2) o2"
    by (simp add: generateKey_string)
  have 4: "generateKey (JStr q1) o1 = generateKey (JStr q2) o2
        \<longleftrightarrow> md5_hex (key_base q1 o1) = md5_hex (key_base q2 o2)"
    by (simp add: generateKey_string)
  from 1 2 3 4 show ?thesis by (intro conjI)
qed

theorem generateKey_deterministic_witness:
  "generateKey (JStr ''What time is it?'') \<lparr>opt_key = None, userId = JStr ''u1'', model = JStr ''m1''\<rparr>
     = generateKey (JStr ''  what TIME is it? '') \<lparr>opt_key = Some ''x'', userId = JStr ''u1'', model = JStr ''m1''\<rparr>
   \<and> (\<exists>h. generateKey (JStr ''What time is it?'')
              \<lparr>opt_key = None, userId = JStr ''u1'', model = JStr ''m1''\<rparr> = Inr (''cache:'' @ h)
          \<and> length h = 32)"
proof -
  let ?o1 = "\<lparr>opt_key = None, userId = JStr ''u1'', model = JStr ''m1''\<rparr>"
  let ?o2 = "\<lparr>opt_key = Some ''x'', userId = JStr ''u1'', model = JStr ''m1''\<rparr>"
  have a: "trim (toLowerCase ''What time is it?'') = trim (toLowerCase ''  what TIME is it? '')"
    by code_simp
  have b: "or_empty (userId ?o1) = or_empty (userId ?o2)" "or_empty (model ?o1) = or_empty (model ?o2)"
    by simp_all
  note t = generateKey_deterministic [of "''What time is it?''" "''  what TIME is it? ''" ?o1 ?o2]
  from t a b have "generateKey (JStr ''What time is it?'') ?o1
      = generateKey (JStr ''  what TIME is it? '') ?o2" by blast
  moreover from t have "\<exists>h. generateKey (JStr ''What time is it?'') ?o1 = Inr (''cache:'' @ h)
      \<and> length h = 32" by blast
  ultimately show ?thesis by (rule conjI)
qed

text \<open>
  Claim C5 as stated: inputs that differ in the normalised query or in \<^verbatim>\<open>userId\<close> get
  different keys. The bar that joins the parts is not escaped: the query \<^verbatim>\<open>a\<close> with
  userId \<^verbatim>\<open>b|c\<close> and the query \<^verbatim>\<open>a|b\<close> with userId \<^verbatim>\<open>c\<close> are hashed from the same
  string and get the same key.
\<close>

theorem generateKey_collision_counterexample:
  "trim (toLowerCase ''a'') \<noteq> trim (toLowerCase ''a|b'')
   \<and> JStr ''b|c'' \<noteq> JStr ''c''
   \<and> generateKey (JStr ''a'') \<lparr>opt_key = None, userId = JStr ''b|c'', model = JUndefined\<rparr>
     = generateKey (JStr ''a|b'') \<lparr>opt_key = None, userId = JStr ''c'', model = JUndefined\<rparr>"
proof -
  have "trim (toLowerCase ''a'') = ''a''" "trim (toLowerCase ''a|b'') = ''a|b''"
    by code_simp+
  then show ?thesis
    by (simp add: generateKey_string key_base_def or_empty_def)
qed

section \<open>Compression codec: the round trip\<close>

lemma decompress_untagged:
  "get_prop x ''compressed'' = Inr c \<Longrightarrow> \<not> truthy c \<Longrightarrow> decompress rt x = Inr x"
  by (simp add: decompress_def)

lemma decompress_wrapper:
  "decompress rt (JObj [(''compressed'', JBool True), (''encoding'', JStr ''gzip''),
                        (''data'', JStr d), (''originalLength'', JNum n)])
     = (case gunzip rt (base64_decode rt d) of Inl e \<Rightarrow> Inl e | Inr json \<Rightarrow> JSON_parse rt json)"
  by (simp add: decompress_def)

text \<open>
  Claim C2 (as amended): for every payload \<open>x\<close> that is JSON-serializable (it serialises to
  a text \<open>s\<close> that \<^verbatim>\<open>JSON.parse\<close> reads back as \<open>x\<close>), that is not \<^verbatim>\<open>null\<close> and whose own
  \<^verbatim>\<open>compressed\<close> property is falsy or absent, \<^verbatim>\<open>decompress(compress(x))\<close> is \<open>x\<close>, below
  and above the threshold, given that the runtime's gzip and base64 round-trip on \<open>s\<close>;
  \<^verbatim>\<open>compress\<close> leaves \<open>x\<close> unchanged when compression is off or \<open>s\<close> is shorter than
  \<^verbatim>\<open>minLength\<close>, and otherwise produces the tagged wrapper.
\<close>

theorem compress_decompress_roundtrip:
  assumes "stringify x = Some s"
    and "JSON_parse rt s = Inr x"
    and "gunzip rt (base64_decode rt (base64_encode rt (gzip rt s))) = Inr s"
    and "get_prop x ''compressed'' = Inr c" and "\<not> truthy c"
  shows "\<exists>y. compress rt cfg x = Inr y \<and> decompress rt y = Inr x
    \<and> (if comp_enabled cfg \<and> minLength cfg \<le> int (length s)
        then y = JObj [(''compressed'', JBool True), (''encoding'', JStr ''gzip''),
                       (''data'', JStr (base64_encode rt (gzip rt s))),
                       (''originalLength'', JNum (int (length s)))]
        else y = x)"
proof (cases "comp_enabled cfg \<and> minLength cfg \<le> int (length s)")
  case True
  let ?y = "JObj [(''compressed'', JBool True), (''encoding'', JStr ''gzip''),
                       (''data'', JStr (base64_encode rt (gzip rt s))),
                       (''originalLength'', JNum (int (length s)))]"
  have "compress rt cfg x = Inr ?y"
    using True assms(1) by (simp add: compress_def)
  moreover have "decompress rt ?y = Inr x"
    by (simp add: decompress_wrapper assms(2,3))
  ultimately show ?thesis using True by simp
next
  case False
  then have "compress rt cfg x = Inr x"
    using assms(1) by (auto simp: compress_def)
  moreover have "decompress rt x = Inr x"
    using assms(4,5) by (rule decompress_untagged)
  ultimately show ?thesis using False by auto
qed

theorem compress_decompress_roundtrip_witness:
  "(case compress (sample_runtime [JObj [(''query'', JStr ''hello world''), (''n'', JNum 42)]])
           \<lparr>comp_enabled = True, minLength = 10\<rparr>
           (JObj [(''query'', JStr ''hello world''), (''n'', JNum 42)]) of
      Inl e \<Rightarrow> Inl e
    | Inr y \<Rightarrow> decompress (sample_runtime [JObj [(''query'', JStr ''hello world''), (''n'', JNum 42)]]) y)
     = Inr (JObj [(''query'', JStr ''hello world''), (''n'', JNum 42)])
   \<and> (\<exists>d n. compress (sample_runtime [JObj [(''query'', JStr ''hello world''), (''n'', JNum 42)]])
           \<lparr>comp_enabled = True, minLength = 10\<rparr>
           (JObj [(''query'', JStr ''hello world''), (''n'', JNum 42)])
         = Inr (JObj [(''compressed'', JBool True), (''encoding'', JStr ''gzip''),
                       (''data'', JStr d), (''originalLength'', JNum n)]))"
proof -
  let ?x = "JObj [(''query'', JStr ''hello world''), (''n'', JNum 42)]"
  let ?rt = "sample_runtime [?x]"
  let ?s = "the (stringify ?x)"
  have s: "stringify ?x = Some ?s" by simp
  have p: "JSON_parse ?rt ?s = Inr ?x"
    by (simp add: sample_runtime_def parse_known_def)
  have g: "gunzip ?rt (base64_decode ?rt (base64_encode ?rt (gzip ?rt ?s))) = Inr ?s"
    by code_simp
  have c: "get_prop ?x ''compressed'' = Inr JUndefined" "\<not> truthy JUndefined" by simp_all
  have l: "comp_enabled \<lparr>comp_enabled = True, minLength = 10\<rparr>
      \<and> minLength \<lparr>comp_enabled = True, minLength = 10\<rparr> \<le> int (length ?s)"
    by code_simp
  from compress_decompress_roundtrip [OF s p g c, of "\<lparr>comp_enabled = True, minLength = 10\<rparr>"] l
  obtain y where y: "compress ?rt \<lparr>comp_enabled = True, minLength = 10\<rparr> ?x = Inr y"
      "decompress ?rt y = Inr ?x"
      "y = JObj [(''compressed'', JBool True), (''encoding'', JStr ''gzip''),
                       (''data'', JStr (base64_encode ?rt (gzip ?rt ?s))),
                       (''originalLength'', JNum (int (length ?s)))]"
    by (auto simp del: stringify.simps)
  from y(1,2) have "(case compress ?rt \<lparr>comp_enabled = True, minLength = 10\<rparr> ?x of
      Inl e \<Rightarrow> Inl e | Inr y \<Rightarrow> decompress ?rt y) = Inr ?x" by simp
  moreover from y(1,3) have "\<exists>d n. compress ?rt \<lparr>comp_enabled = True, minLength = 10\<rparr> ?x
         = Inr (JObj [(''compressed'', JBool True), (''encoding'', JStr ''gzip''),
                       (''data'', JStr d), (''originalLength'', JNum n)])" by blast
  ultimately show ?thesis by (rule conjI)
qed

text \<open>
  Claim C2 as stated covers every JSON-serializable payload. \<^verbatim>\<open>null\<close> is returned as it is
  by \<^verbatim>\<open>compress\<close>, and \<^verbatim>\<open>decompress(null)\<close> throws on \<^verbatim>\<open>entry.compressed\<close>; the short
  payload \<^verbatim>\<open>{"compressed": true}\<close> is returned as it is too, and \<^verbatim>\<open>decompress\<close> takes it
  for a wrapper and throws on its missing \<^verbatim>\<open>data\<close>.
\<close>

theorem tagged_payload_roundtrip_counterexample:
  "compress (sample_runtime []) default_comp_config JNull = Inr JNull
   \<and> decompress (sample_runtime []) JNull = Inl TypeError
   \<and> compress (sample_runtime []) default_comp_config (JObj [(''compressed'', JBool True)])
       = Inr (JObj [(''compressed'', JBool True)])
   \<and> decompress (sample_runtime []) (JObj [(''compressed'', JBool True)]) = Inl TypeError"
  by code_simp
end
